theory Spec2Isabelle
  imports Main "HOL-Library.Word" "HOL-Library.Multiset" "HOL-Library.List_Lexorder"
begin

unbundle bit_operations_syntax

section \<open>Comparators and sortedness\<close>

text \<open>
  The sorter is generic in its comparator \<open>Comp\<close>, a binary predicate used as "less than".
  The standard algorithms it calls (\<open>std::lower_bound\<close>, \<open>std::upper_bound\<close>,
  \<open>std::merge\<close>, \<open>std::is_sorted\<close>) require a strict weak ordering.
\<close>

definition strict_weak_order :: "('a \<Rightarrow> 'a \<Rightarrow> bool) \<Rightarrow> bool" where
  "strict_weak_order cmp \<longleftrightarrow>
     (\<forall>a. \<not> cmp a a) \<and>
     (\<forall>a b c. cmp a b \<longrightarrow> cmp b c \<longrightarrow> cmp a c) \<and>
     (\<forall>a b c. cmp a c \<longrightarrow> cmp a b \<or> cmp b c)"

text \<open>\<open>std::is_sorted(begin, end, comp)\<close>: no element is less than an earlier one.\<close>

definition is_sorted :: "('a \<Rightarrow> 'a \<Rightarrow> bool) \<Rightarrow> 'a list \<Rightarrow> bool" where
  "is_sorted cmp v = sorted_wrt (\<lambda>a b. \<not> cmp b a) v"

section \<open>Binary searches of the standard library\<close>

text \<open>
  \<open>std::lower_bound(first, last, val, comp)\<close> and \<open>std::upper_bound\<close>, as the usual
  halving loop over the range \<open>[first, first + len)\<close> of the array \<open>v\<close>. Positions are
  offsets from \<open>v.data()\<close>.
\<close>

function lower_bound_loop :: "('a \<Rightarrow> 'a \<Rightarrow> bool) \<Rightarrow> 'a list \<Rightarrow> nat \<Rightarrow> nat \<Rightarrow> 'a \<Rightarrow> nat" where
  "lower_bound_loop cmp v first len val =
     (if 0 < len then
        (let half = len div 2; middle = first + half in
         if cmp (v ! middle) val
         then lower_bound_loop cmp v (middle + 1) (len - half - 1) val
         else lower_bound_loop cmp v first half val)
      else first)"
  by pat_completeness auto
termination
  by (relation "measure (\<lambda>(cmp, v, first, len, val). len)") auto

declare lower_bound_loop.simps [simp del]

definition lower_bound :: "('a \<Rightarrow> 'a \<Rightarrow> bool) \<Rightarrow> 'a list \<Rightarrow> nat \<Rightarrow> nat \<Rightarrow> 'a \<Rightarrow> nat" where
  "lower_bound cmp v first last' val = lower_bound_loop cmp v first (last' - first) val"

function upper_bound_loop :: "('a \<Rightarrow> 'a \<Rightarrow> bool) \<Rightarrow> 'a list \<Rightarrow> nat \<Rightarrow> nat \<Rightarrow> 'a \<Rightarrow> nat" where
  "upper_bound_loop cmp v first len val =
     (if 0 < len then
        (let half = len div 2; middle = first + half in
         if cmp val (v ! middle)
         then upper_bound_loop cmp v first half val
         else upper_bound_loop cmp v (middle + 1) (len - half - 1) val)
      else first)"
  by pat_completeness auto
termination
  by (relation "measure (\<lambda>(cmp, v, first, len, val). len)") auto

declare upper_bound_loop.simps [simp del]

definition upper_bound :: "('a \<Rightarrow> 'a \<Rightarrow> bool) \<Rightarrow> 'a list \<Rightarrow> nat \<Rightarrow> nat \<Rightarrow> 'a \<Rightarrow> nat" where
  "upper_bound cmp v first last' val = upper_bound_loop cmp v first (last' - first) val"

text \<open>The first index of \<open>v\<close> whose element satisfies \<open>P\<close>, or \<open>length v\<close> if there is none.\<close>

definition first_index :: "('a \<Rightarrow> bool) \<Rightarrow> 'a list \<Rightarrow> nat" where
  "first_index P v = length (takeWhile (\<lambda>x. \<not> P x) v)"

section \<open>RandomBitStore\<close>

text \<open>
  The generator \<open>std::mt19937_64\<close> is deterministic: its state is modelled as the
  sequence of the 64-bit words it will produce, the next one at position 0.
\<close>

type_synonym mt19937_64 = "nat \<Rightarrow> 64 word"

definition gen_draw :: "mt19937_64 \<Rightarrow> 64 word \<times> mt19937_64" where
  "gen_draw gen = (gen 0, \<lambda>n. gen (Suc n))"

record RandomBitStore =
  cached :: "64 word"
  residual :: nat

text \<open>
  Modelled from the spec: \<open>RandomBitStore.hpp\<close> is not among the sources. The store
  holds a cached 64-bit word and a residual-bit counter (0 to 63 valid bits);
  \<open>getNextBit\<close> consumes one bit and refills from the generator on exhaustion.
\<close>

definition getNextBit :: "RandomBitStore \<Rightarrow> mt19937_64 \<Rightarrow> bool \<times> RandomBitStore \<times> mt19937_64" where
  "getNextBit bit_store gen =
     (if residual bit_store = 0
      then (let (w, gen') = gen_draw gen
            in (bit w 0, \<lparr>cached = drop_bit 1 w, residual = 63\<rparr>, gen'))
      else (bit (cached bit_store) 0,
            \<lparr>cached = drop_bit 1 (cached bit_store), residual = residual bit_store - 1\<rparr>, gen))"

section \<open>LocateSplitter\<close>

text \<open>
  \<open>locateSplitter\<close> of \<open>RQuick.hpp\<close> (both copies are the same). The result is the
  offset of the returned pointer from \<open>v.data()\<close>, with the bit store and the generator
  as they are left. The random bit is drawn only when the robust path is taken and the
  size is odd (\<open>&&\<close> short-circuits).
\<close>

definition locateSplitter ::
  "'a list \<Rightarrow> ('a \<Rightarrow> 'a \<Rightarrow> bool) \<Rightarrow> 'a \<Rightarrow> mt19937_64 \<Rightarrow> RandomBitStore \<Rightarrow> bool
     \<Rightarrow> nat \<times> RandomBitStore \<times> mt19937_64" where
  "locateSplitter v cmp splitter gen bit_store is_robust =
     (let begin_equal_els = lower_bound cmp v 0 (length v) splitter in
      if \<not> is_robust then (begin_equal_els, bit_store, gen)
      else
        (let end_equal_els = upper_bound cmp v begin_equal_els (length v) splitter;
             (b, bit_store', gen') =
                (if length v mod 2 = 1 then getNextBit bit_store gen else (False, bit_store, gen));
             opt_split = length v div 2 + (if length v mod 2 = 1 \<and> b then 1 else 0)
         in (if begin_equal_els < opt_split then min opt_split end_equal_els else begin_equal_els,
             bit_store', gen')))"

section \<open>Strings and the two comparators\<close>

text \<open>
  A string of a string set (\<open>UCharLengthStringSet::String\<close>,
  \<open>UCharLengthIndexStringSet::String\<close>) is a pointer to zero-terminated characters with
  its length, and in the indexed set a 64-bit origin index. The model holds the characters
  the pointer refers to, without the terminator; a string of the non-indexed set has no
  index field, which is modelled as index 0.
\<close>

type_synonym byte = "8 word"

record Str =
  chars :: "byte list"
  index :: "64 word"

definition getLength :: "Str \<Rightarrow> nat" where
  "getLength s = length (chars s)"

text \<open>The characters a string pointer refers to: the content and its terminator.\<close>

definition c_str :: "Str \<Rightarrow> byte list" where
  "c_str s = chars s @ [0]"

text \<open>
  The loop shared by \<open>StringComparator\<close> and \<open>IndexStringComparator\<close>:
  \<open>while (*lhsChars == *rhsChars && *lhsChars != 0) { ++lhsChars; ++rhsChars; }\<close>.
  The result is the pair \<open>(*lhsChars, *rhsChars)\<close> where the loop stops. On
  zero-terminated input the loop stops inside both buffers; the last equation is a read
  past a buffer and is never reached then.
\<close>

fun compare_loop :: "byte list \<Rightarrow> byte list \<Rightarrow> byte \<times> byte" where
  "compare_loop (x # xs) (y # ys) = (if x = y \<and> x \<noteq> 0 then compare_loop xs ys else (x, y))"
| "compare_loop _ _ = (0, 0)"

definition StringComparator :: "Str \<Rightarrow> Str \<Rightarrow> bool" where
  "StringComparator lhs rhs =
     (let (l, r) = compare_loop (c_str lhs) (c_str rhs) in l < r)"

definition IndexStringComparator :: "Str \<Rightarrow> Str \<Rightarrow> bool" where
  "IndexStringComparator lhs rhs =
     (let (l, r) = compare_loop (c_str lhs) (c_str rhs)
      in if l = 0 \<and> r = 0 then index lhs < index rhs else l < r)"

text \<open>The characters a comparator sees: those before the first zero byte.\<close>

definition visible :: "Str \<Rightarrow> byte list" where
  "visible s = takeWhile (\<lambda>c. c \<noteq> 0) (chars s)"

section \<open>Data: the buffers that are exchanged\<close>

text \<open>
  \<open>RQuick::Data\<close>: the raw characters of a sequence of zero-terminated strings and, in
  the indexed instance, their indices. \<open>isIndexed\<close> is the template parameter.
\<close>

record Data =
  rawStrings :: "byte list"
  indices :: "64 word list"

definition clear :: "Data \<Rightarrow> Data" where
  "clear d = \<lparr>rawStrings = [], indices = []\<rparr>"

text \<open>
  The indices travel as raw memory (\<open>MPI_BYTE\<close>): eight bytes per index, least
  significant byte first.
\<close>

definition u64_bytes :: "64 word \<Rightarrow> byte list" where
  "u64_bytes w =
     [ucast w, ucast (drop_bit 8 w), ucast (drop_bit 16 w), ucast (drop_bit 24 w),
      ucast (drop_bit 32 w), ucast (drop_bit 40 w), ucast (drop_bit 48 w),
      ucast (drop_bit 56 w)]"

definition bytes_u64 :: "byte list \<Rightarrow> 64 word" where
  "bytes_u64 bs = foldr (\<lambda>b w. ucast b OR push_bit 8 w) bs 0"

text \<open>The memory of a \<open>std::vector<uint64_t>\<close>, and the vector a memory image holds.\<close>

definition u64_image :: "64 word list \<Rightarrow> byte list" where
  "u64_image ws = concat (map u64_bytes ws)"

fun u64_vector :: "byte list \<Rightarrow> 64 word list" where
  "u64_vector (b0 # b1 # b2 # b3 # b4 # b5 # b6 # b7 # bs) =
     bytes_u64 [b0, b1, b2, b3, b4, b5, b6, b7] # u64_vector bs"
| "u64_vector _ = []"

text \<open>
  \<open>MPI_Irecv(vec.data() + pos, count, MPI_BYTE, ...)\<close> followed by its wait: the
  \<open>count\<close> bytes of the message overwrite the memory of \<open>vec\<close> from element \<open>pos\<close> on.
\<close>

definition irecv_u64 :: "64 word list \<Rightarrow> nat \<Rightarrow> byte list \<Rightarrow> 64 word list" where
  "irecv_u64 vec pos msg =
     (let image = u64_image vec
      in u64_vector (take (8 * pos) image @ msg @ drop (8 * pos + length msg) image))"

text \<open>
  What \<open>Data::Send\<close> transmits: the characters on \<open>tag\<close> and, in the indexed instance,
  \<open>indices.size() * sizeof(uint64_t)\<close> bytes of index memory on \<open>tag + 1\<close>. The two
  \<open>MPI_Isend\<close> calls of \<open>Data::exchange\<close> transmit the same two payloads.
\<close>

definition Send :: "bool \<Rightarrow> Data \<Rightarrow> byte list \<times> byte list" where
  "Send isIndexed d =
     (rawStrings d, if isIndexed then take (length (indices d) * 8) (u64_image (indices d)) else [])"

text \<open>
  \<open>Data::exchange\<close>, the receiving side: the sizes are the byte counts of the probed
  messages; \<open>returnData.indices\<close> is resized to \<open>recv_indices_size\<close> elements, and the
  message is received into its memory. \<open>incoming\<close> is what the partner transmits.
\<close>

definition exchange :: "bool \<Rightarrow> Data \<Rightarrow> byte list \<times> byte list \<Rightarrow> Data" where
  "exchange isIndexed this incoming =
     (if \<not> isIndexed then
        (let recv_size = length (fst incoming)
         in \<lparr>rawStrings = take recv_size (fst incoming), indices = []\<rparr>)
      else
        (let recv_size = length (fst incoming);
             recv_indices_size = length (snd incoming)
         in \<lparr>rawStrings = take recv_size (fst incoming),
             indices = irecv_u64 (replicate recv_indices_size 0) 0 (snd incoming)\<rparr>))"

text \<open>\<open>Data::Recv\<close>: the blocking variant, with the same resizing.\<close>

definition Recv :: "bool \<Rightarrow> byte list \<times> byte list \<Rightarrow> Data" where
  "Recv isIndexed incoming =
     (if \<not> isIndexed then
        (let count = length (fst incoming)
         in \<lparr>rawStrings = take count (fst incoming), indices = []\<rparr>)
      else
        (let charCount = length (fst incoming);
             indexCount = length (snd incoming)
         in \<lparr>rawStrings = take charCount (fst incoming),
             indices = irecv_u64 (replicate indexCount 0) 0 (snd incoming)\<rparr>))"

text \<open>
  \<open>Data::IReceiveAppend\<close>: both vectors grow by the byte count of their message, and the
  message is received behind the old contents.
\<close>

definition IReceiveAppend :: "bool \<Rightarrow> Data \<Rightarrow> byte list \<times> byte list \<Rightarrow> Data" where
  "IReceiveAppend isIndexed this incoming =
     (if \<not> isIndexed then
        (let recv_cnt = length (fst incoming)
         in this\<lparr>rawStrings := rawStrings this @ take recv_cnt (fst incoming)\<rparr>)
      else
        (let recv_cnt = length (fst incoming);
             recv_indices_cnt = length (snd incoming)
         in \<lparr>rawStrings = rawStrings this @ take recv_cnt (fst incoming),
             indices = irecv_u64 (indices this @ replicate recv_indices_cnt 0)
                         (length (indices this @ replicate recv_indices_cnt 0) - recv_indices_cnt)
                         (snd incoming)\<rparr>))"



section \<open>StringContainer\<close>

text \<open>
  A container owns the raw characters and a table of string views. Sorting permutes the
  views and leaves the raw characters where they are.
\<close>

record StringContainer =
  raw_strings :: "byte list"
  strings :: "Str list"

definition cont_size :: "StringContainer \<Rightarrow> nat" where
  "cont_size c = length (strings c)"

definition char_size :: "StringContainer \<Rightarrow> nat" where
  "char_size c = length (raw_strings c)"

text \<open>
  Modelled from the spec: \<open>strings/stringcontainer.hpp\<close> is not among the sources.
  Construction from a byte blob parses the zero-terminator positions and builds the view
  table, one view per terminated string in the order of the blob; in the indexed variant
  the i-th string takes the i-th index. Bytes after the last terminator form no string.
\<close>

fun init_strings :: "byte list \<Rightarrow> byte list \<Rightarrow> byte list list" where
  "init_strings cur [] = []"
| "init_strings cur (c # cs) =
     (if c = 0 then cur # init_strings [] cs else init_strings (cur @ [c]) cs)"

definition make_container :: "bool \<Rightarrow> byte list \<Rightarrow> 64 word list \<Rightarrow> StringContainer" where
  "make_container isIndexed raw idx =
     \<lparr>raw_strings = raw,
      strings = (if isIndexed
                 then map (\<lambda>(c, i). \<lparr>chars = c, index = i\<rparr>) (zip (init_strings [] raw) idx)
                 else map (\<lambda>c. \<lparr>chars = c, index = 0\<rparr>) (init_strings [] raw))\<rparr>"

text \<open>Modelled from the spec: \<open>update\<close> replaces the contents and rebuilds the view table.\<close>

definition update :: "bool \<Rightarrow> StringContainer \<Rightarrow> byte list \<Rightarrow> 64 word list \<Rightarrow> StringContainer" where
  "update isIndexed c raw idx = make_container isIndexed raw idx"


definition moveToContainer :: "bool \<Rightarrow> Data \<Rightarrow> StringContainer" where
  "moveToContainer isIndexed d = make_container isIndexed (rawStrings d) (indices d)"

section \<open>MiddleMostPicker\<close>

text \<open>
  \<open>middleMostElements\<close> of \<open>src/sorter/RQuick/RQuick.hpp\<close>. The loop over
  \<open>[begin, begin + k)\<close> appends the characters of each view with its terminator, and its
  index in the indexed instance.
\<close>

definition push_string :: "bool \<Rightarrow> Data \<Rightarrow> Str \<Rightarrow> Data" where
  "push_string isIndexed d str =
     \<lparr>rawStrings = rawStrings d @ c_str str,
      indices = (if isIndexed then indices d @ [index str] else indices d)\<rparr>"

definition middleMostElements ::
  "bool \<Rightarrow> StringContainer \<Rightarrow> nat \<Rightarrow> mt19937_64 \<Rightarrow> RandomBitStore
     \<Rightarrow> Data \<times> RandomBitStore \<times> mt19937_64" where
  "middleMostElements isIndexed cont k async_gen bit_gen =
     (if cont_size cont \<le> k then
        (\<lparr>rawStrings = raw_strings cont,
          indices = (if isIndexed then map index (strings cont) else [])\<rparr>, bit_gen, async_gen)
      else
        (let offset = (cont_size cont - k) div 2;
             shiftCondition = (cont_size cont mod 2 = 0 \<and> k mod 2 = 0) \<or>
                              (cont_size cont mod 2 = 1 \<and> k mod 2 = 1);
             (b, bit_gen', async_gen') =
                (if shiftCondition then (False, bit_gen, async_gen)
                 else getNextBit bit_gen async_gen);
             shift = (if b then 1 else 0);
             begin = offset + shift
         in (foldl (\<lambda>d i. push_string isIndexed d (strings cont ! i))
                \<lparr>rawStrings = [], indices = []\<rparr> [begin..<begin + k],
             bit_gen', async_gen')))"

text \<open>
  \<open>middleMostElements\<close> of \<open>NeuKaDiS/KaDiS/src/RQuick/RQuick.hpp\<close>, which returns the
  characters only.
\<close>

definition middleMostElements_KaDiS ::
  "StringContainer \<Rightarrow> nat \<Rightarrow> mt19937_64 \<Rightarrow> RandomBitStore
     \<Rightarrow> byte list \<times> RandomBitStore \<times> mt19937_64" where
  "middleMostElements_KaDiS cont k async_gen bit_gen =
     (if cont_size cont \<le> k then (raw_strings cont, bit_gen, async_gen)
      else
        (let offset = (cont_size cont - k) div 2;
             shiftCondition = (cont_size cont mod 2 = 0 \<and> k mod 2 = 0) \<or>
                              (cont_size cont mod 2 = 1 \<and> k mod 2 = 1);
             (b, bit_gen', async_gen') =
                (if shiftCondition then (False, bit_gen, async_gen)
                 else getNextBit bit_gen async_gen);
             shift = (if b then 1 else 0);
             begin = offset + shift
         in (foldl (\<lambda>middleMostRawStrings i. middleMostRawStrings @ c_str (strings cont ! i))
                [] [begin..<begin + k],
             bit_gen', async_gen')))"

text \<open>
  The shift of the window as the specification states it: none when the size and \<open>k\<close>
  have the same parity, otherwise the next bit of the bit store.
\<close>

definition middle_shift :: "nat \<Rightarrow> nat \<Rightarrow> RandomBitStore \<Rightarrow> mt19937_64 \<Rightarrow> nat" where
  "middle_shift n k bit_gen async_gen =
     (if n mod 2 = k mod 2 then 0 else if fst (getNextBit bit_gen async_gen) then 1 else 0)"

section \<open>Merge and TwoSequenceSelection\<close>

text \<open>
  \<open>std::merge(begin1, end1, begin2, end2, tbegin, comp)\<close>: an element of the second
  range is taken only when it is less than the head of the first.
\<close>

fun merge :: "('a \<Rightarrow> 'a \<Rightarrow> bool) \<Rightarrow> 'a list \<Rightarrow> 'a list \<Rightarrow> 'a list" where
  "merge cmp [] ys = ys"
| "merge cmp xs [] = xs"
| "merge cmp (x # xs) (y # ys) =
     (if cmp y x then y # merge cmp (x # xs) ys else x # merge cmp xs (y # ys))"

text \<open>
  \<open>twoSequenceSelection\<close> of the KaDiS copy. The two sequences are the ranges
  \<open>[begin1, end1)\<close> of the array \<open>A\<close> and \<open>[begin2, end2)\<close> of the array \<open>B\<close>
  (offsets instead of pointers); \<open>rank\<close> is an \<open>int64_t\<close>. One iteration of the loop
  either returns a pair of positions or continues with a new state.
\<close>

type_synonym tss_state = "nat \<times> nat \<times> nat \<times> nat \<times> int"

definition tss_body ::
  "('a \<Rightarrow> 'a \<Rightarrow> bool) \<Rightarrow> 'a list \<Rightarrow> 'a list \<Rightarrow> tss_state \<Rightarrow> (int \<times> int) + tss_state" where
  "tss_body cmp A B s =
     (case s of (begin1, end1, begin2, end2, rank) \<Rightarrow>
        (let offset1 = (end1 - begin1) div 2;
             splitter1 = begin1 + offset1;
             splitter2 = lower_bound cmp B begin2 end2 (A ! splitter1);
             offset2 = splitter2 - begin2;
             new_rank = int offset1 + int offset2
         in if rank < new_rank then Inr (begin1, splitter1, begin2, splitter2, rank)
            else if rank > new_rank
            then Inr (splitter1 + 1, end1, splitter2, end2, rank - (new_rank + 1))
            else Inl (int splitter1, int splitter2)))"

text \<open>
  The loop \<open>while (end1 != begin1)\<close>. Not returning is the value \<open>None\<close>; so is the
  failure of \<open>assert(end1 > begin1)\<close>.
\<close>

partial_function (option) tss_loop ::
  "('a \<Rightarrow> 'a \<Rightarrow> bool) \<Rightarrow> 'a list \<Rightarrow> 'a list \<Rightarrow> tss_state \<Rightarrow> (int \<times> int) option" where
  "tss_loop cmp A B s =
     (case s of (begin1, end1, begin2, end2, rank) \<Rightarrow>
        if end1 \<noteq> begin1 then
          (if end1 > begin1 then
             (case tss_body cmp A B s of
                Inl r \<Rightarrow> Some r
              | Inr s' \<Rightarrow> tss_loop cmp A B s')
           else None)
        else Some (int begin1, int begin2 + rank))"

definition twoSequenceSelection ::
  "'a list \<Rightarrow> nat \<Rightarrow> nat \<Rightarrow> 'a list \<Rightarrow> nat \<Rightarrow> nat \<Rightarrow> int \<Rightarrow> ('a \<Rightarrow> 'a \<Rightarrow> bool)
     \<Rightarrow> (int \<times> int) option" where
  "twoSequenceSelection A begin1 end1 B begin2 end2 rank cmp =
     tss_loop cmp A B (begin1, end1, begin2, end2, rank)"

section \<open>DuplicateBreak and the local sort\<close>

text \<open>The length of the longest common prefix of two character sequences.\<close>

fun lcp :: "byte list \<Rightarrow> byte list \<Rightarrow> nat" where
  "lcp (x # xs) (y # ys) = (if x = y then Suc (lcp xs ys) else 0)"
| "lcp _ _ = 0"

text \<open>
  \<open>tlx::sort_strings_detail::radixsort_CI3\<close> belongs to an external library. It is
  modelled by its contract: the views are ordered by their characters up to the
  terminator, and with an LCP pointer entry \<open>i \<ge> 1\<close> of the LCP array receives the
  length of the longest common prefix of the strings at \<open>i - 1\<close> and \<open>i\<close>; entry 0 is 0.
\<close>

definition radixsort_CI3 :: "Str list \<Rightarrow> Str list" where
  "radixsort_CI3 ss = sort_key visible ss"

definition lcp_array :: "Str list \<Rightarrow> nat list" where
  "lcp_array ss =
     (case ss of [] \<Rightarrow> []
      | s # rest \<Rightarrow> 0 # map (\<lambda>(a, b). lcp (visible a) (visible b)) (zip ss rest))"

text \<open>
  \<open>getDuplicateRanges\<close>: one iteration of the loop over \<open>i = 1, ..., size - 1\<close>, on the
  vector \<open>intervals\<close> and \<open>prevLength\<close>; \<open>intervals.back()\<close> is the last element.
\<close>

definition dup_step ::
  "Str list \<Rightarrow> nat list \<Rightarrow> (nat \<times> nat) list \<times> nat \<Rightarrow> nat \<Rightarrow> (nat \<times> nat) list \<times> nat" where
  "dup_step ss lcps st i =
     (case st of (intervals, prevLength) \<Rightarrow>
        (let curLcp = lcps ! i;
             curLength = getLength (ss ! i)
         in (if curLength \<noteq> curLcp \<or> prevLength \<noteq> curLcp then
               (if fst (last intervals) + 1 \<noteq> i
                then butlast intervals @ [(fst (last intervals), i)] @ [(i, i)]
                else butlast intervals @ [(i, snd (last intervals))])
             else intervals,
             curLength)))"

definition getDuplicateRanges :: "Str list \<Rightarrow> nat list \<Rightarrow> (nat \<times> nat) list" where
  "getDuplicateRanges ss lcps =
     (if length ss = 0 then []
      else
        (let (intervals, prevLength) =
               foldl (dup_step ss lcps) ([(0, 0)], getLength (ss ! 0)) [1..<length ss]
         in butlast intervals @ [(fst (last intervals), length ss)]))"

text \<open>
  \<open>sortRanges\<close>: each range \<open>[begin, end)\<close> of the view table is sorted by index with
  \<open>std::sort\<close>, which is modelled by a sort on the key.
\<close>

definition sort_range :: "Str list \<Rightarrow> nat \<times> nat \<Rightarrow> Str list" where
  "sort_range ss r =
     (case r of (begin, end) \<Rightarrow>
        take begin ss @ sort_key index (take (end - begin) (drop begin ss)) @ drop end ss)"

definition sortRanges :: "Str list \<Rightarrow> (nat \<times> nat) list \<Rightarrow> Str list" where
  "sortRanges ss ranges = foldl sort_range ss ranges"

definition sortLocally :: "bool \<Rightarrow> StringContainer \<Rightarrow> StringContainer" where
  "sortLocally isIndexed stringContainer =
     (if isIndexed then
        (let sorted = radixsort_CI3 (strings stringContainer);
             lcps = lcp_array sorted;
             ranges = getDuplicateRanges sorted lcps
         in stringContainer\<lparr>strings := sortRanges sorted ranges\<rparr>)
      else stringContainer\<lparr>strings := radixsort_CI3 (strings stringContainer)\<rparr>)"

text \<open>
  The maximal runs of adjacent strings with equal characters, as the specification of
  DuplicateBreak speaks of them.
\<close>

fun runs :: "Str list \<Rightarrow> Str list list" where
  "runs [] = []"
| "runs (x # xs) =
     (case runs xs of
        [] \<Rightarrow> [[x]]
      | r # rs \<Rightarrow> if chars x = chars (hd r) then (x # r) # rs else [x] # r # rs)"

section \<open>SortRecursive\<close>

text \<open>
  A process of a group: its container, its bit store and its generator. A group is the
  list of its processes in rank order.
\<close>

type_synonym process = "StringContainer \<times> RandomBitStore \<times> mt19937_64"



text \<open>The loop that fills \<open>exchangeData\<close> from the views of the send range.\<close>

definition pack_strings :: "bool \<Rightarrow> Str list \<Rightarrow> Data" where
  "pack_strings isIndexed strs = foldl (push_string isIndexed) \<lparr>rawStrings = [], indices = []\<rparr> strs"

text \<open>
  The partition step of one rank: the separator, the send and own ranges (swapped for the
  left half of the group), \<open>exchangeData\<close> and \<open>ownCharsSize\<close>.
\<close>

definition partition_local ::
  "bool \<Rightarrow> (Str \<Rightarrow> Str \<Rightarrow> bool) \<Rightarrow> bool \<Rightarrow> nat \<Rightarrow> nat \<Rightarrow> StringContainer \<Rightarrow> Str
     \<Rightarrow> mt19937_64 \<Rightarrow> RandomBitStore
     \<Rightarrow> (Data \<times> Str list \<times> nat) \<times> RandomBitStore \<times> mt19937_64" where
  "partition_local isIndexed cmp is_robust nprocs myrank stringContainer pivotString gen bit_store =
     (let is_left_group = myrank < nprocs div 2;
          (separator, bit_store', gen') =
             locateSplitter (strings stringContainer) cmp pivotString gen bit_store is_robust;
          (send, own) =
             (if is_left_group
              then (drop separator (strings stringContainer), take separator (strings stringContainer))
              else (take separator (strings stringContainer), drop separator (strings stringContainer)));
          exchangeData = pack_strings isIndexed send;
          ownCharsSize = char_size stringContainer - length (rawStrings exchangeData)
      in ((exchangeData, own, ownCharsSize), bit_store', gen'))"

text \<open>
  \<open>std::copy_n(chars, length, mergedRawStrings.begin() + curPos)\<close> for every merged
  string in turn: the characters and the terminator overwrite the buffer from \<open>curPos\<close>.
\<close>

definition copy_n_at :: "byte list \<times> nat \<Rightarrow> Str \<Rightarrow> byte list \<times> nat" where
  "copy_n_at st str =
     (case st of (buffer, curPos) \<Rightarrow>
        (take curPos buffer @ c_str str @ drop (curPos + (getLength str + 1)) buffer,
         curPos + (getLength str + 1)))"

text \<open>
  The merge step of one rank: the received data become a container, the own range and the
  received strings are merged, and the container is updated with the characters (and
  indices) of the merged strings, written into a buffer of
  \<open>recvStrings.char_size() + ownCharsSize\<close> bytes.
\<close>

definition merge_received ::
  "bool \<Rightarrow> (Str \<Rightarrow> Str \<Rightarrow> bool) \<Rightarrow> StringContainer \<Rightarrow> Str list \<Rightarrow> nat \<Rightarrow> Data
     \<Rightarrow> StringContainer" where
  "merge_received isIndexed cmp stringContainer own ownCharsSize recvData =
     (let recvStrings = moveToContainer isIndexed recvData;
          mergedStrings = merge cmp own (strings recvStrings);
          mergedRawStrings =
            fst (foldl copy_n_at (replicate (char_size recvStrings + ownCharsSize) 0, 0) mergedStrings);
          mergedStringsIndices = (if isIndexed then map index mergedStrings else [])
      in update isIndexed stringContainer mergedRawStrings mergedStringsIndices)"

text \<open>
  The partition step of every rank of a group of \<open>nprocs\<close> processes, for the pivot
  string and the random states the selection has left.
\<close>

definition level_parts ::
  "bool \<Rightarrow> (Str \<Rightarrow> Str \<Rightarrow> bool) \<Rightarrow> bool \<Rightarrow> nat \<Rightarrow> process list \<Rightarrow> Str
     \<Rightarrow> (RandomBitStore \<times> mt19937_64) list
     \<Rightarrow> ((Data \<times> Str list \<times> nat) \<times> RandomBitStore \<times> mt19937_64) list" where
  "level_parts isIndexed cmp is_robust nprocs procs pivotString states =
     map (\<lambda>myrank.
            partition_local isIndexed cmp is_robust nprocs myrank (fst (procs ! myrank))
              pivotString (snd (states ! myrank)) (fst (states ! myrank)))
       [0..<nprocs]"

text \<open>
  The exchange and merge step of every rank: rank \<open>myrank\<close> exchanges with
  \<open>partner = (myrank + nprocs / 2) % nprocs\<close> and merges what it kept with what it
  received.
\<close>

definition level_step ::
  "bool \<Rightarrow> (Str \<Rightarrow> Str \<Rightarrow> bool) \<Rightarrow> bool \<Rightarrow> nat \<Rightarrow> process list \<Rightarrow> Str
     \<Rightarrow> (RandomBitStore \<times> mt19937_64) list \<Rightarrow> process list" where
  "level_step isIndexed cmp is_robust nprocs procs pivotString states =
     (let parts = level_parts isIndexed cmp is_robust nprocs procs pivotString states
      in map (\<lambda>myrank.
                (case parts ! myrank of ((exchangeData, own, ownCharsSize), bit_store, gen) \<Rightarrow>
                   (let partner = (myrank + nprocs div 2) mod nprocs;
                        recvData = exchange isIndexed exchangeData
                                     (Send isIndexed (fst (fst (parts ! partner))))
                    in (merge_received isIndexed cmp (fst (procs ! myrank)) own ownCharsSize recvData,
                        bit_store, gen))))
           [0..<nprocs])"




section \<open>FoldToPow2 and the driver\<close>

text \<open>
  \<open>tlx::round_down_to_power_of_two\<close> belongs to an external library: the largest power
  of two that is at most \<open>n\<close>.
\<close>

fun round_down_to_power_of_two :: "nat \<Rightarrow> nat" where
  "round_down_to_power_of_two n = (if n < 2 then n else 2 * round_down_to_power_of_two (n div 2))"

declare round_down_to_power_of_two.simps [simp del]

text \<open>
  The fold-in step of \<open>sort\<close> for the rank \<open>myrank\<close> of a group whose local data are
  \<open>datas\<close>. A rank below \<open>nprocs - pow\<close> receives and appends what rank \<open>pow + myrank\<close>
  sends; a rank from \<open>pow\<close> on sends its data to \<open>myrank - pow\<close>, clears them and returns
  \<open>StringContainer()\<close>, which is the result \<open>None\<close> here; the other ranks keep their data.
\<close>

definition move_to_pow_of_two :: "bool \<Rightarrow> Data list \<Rightarrow> nat \<Rightarrow> Data option" where
  "move_to_pow_of_two isIndexed datas myrank =
     (let nprocs = length datas;
          pow = round_down_to_power_of_two nprocs
      in if myrank < nprocs - pow
         then Some (IReceiveAppend isIndexed (datas ! myrank) (Send isIndexed (datas ! (pow + myrank))))
         else if myrank \<ge> pow then None
         else Some (datas ! myrank))"


text \<open>The comparator that goes with each instance of the string set.\<close>

definition comparator :: "bool \<Rightarrow> Str \<Rightarrow> Str \<Rightarrow> bool" where
  "comparator isIndexed = (if isIndexed then IndexStringComparator else StringComparator)"






text \<open>
  The states the loop of \<open>twoSequenceSelection\<close> reaches from a state \<open>s0\<close>: each step is
  one iteration that does not return.
\<close>

inductive tss_reach ::
  "('a \<Rightarrow> 'a \<Rightarrow> bool) \<Rightarrow> 'a list \<Rightarrow> 'a list \<Rightarrow> tss_state \<Rightarrow> tss_state \<Rightarrow> bool"
  for cmp A B s0 where
  start: "tss_reach cmp A B s0 s0"
| step: "tss_reach cmp A B s0 (begin1, end1, begin2, end2, rank) \<Longrightarrow> end1 \<noteq> begin1 \<Longrightarrow>
         tss_body cmp A B (begin1, end1, begin2, end2, rank) = Inr s' \<Longrightarrow>
         tss_reach cmp A B s0 s'"

text \<open>
  The result the specification asks of \<open>twoSequenceSelection\<close> for the rank \<open>k\<close>: the
  positions \<open>(a, b)\<close> lie inside the sequences and add up to \<open>k\<close>; no element of \<open>B\<close>
  from \<open>b\<close> on is less than a selected element of \<open>A\<close>, and every selected element of
  \<open>B\<close> is less than every element of \<open>A\<close> from \<open>a\<close> on, so that among equal elements
  those of \<open>A\<close> come first.
\<close>

definition selects :: "('a \<Rightarrow> 'a \<Rightarrow> bool) \<Rightarrow> 'a list \<Rightarrow> 'a list \<Rightarrow> int \<Rightarrow> int \<times> int \<Rightarrow> bool" where
  "selects cmp A B k ab \<longleftrightarrow>
     (case ab of (a, b) \<Rightarrow>
        0 \<le> a \<and> a \<le> int (length A) \<and> 0 \<le> b \<and> b \<le> int (length B) \<and> a + b = k \<and>
        (\<forall>x \<in> set (take (nat a) A). \<forall>y \<in> set (drop (nat b) B). \<not> cmp y x) \<and>
        (\<forall>y \<in> set (take (nat b) B). \<forall>x \<in> set (drop (nat a) A). cmp y x))"

text \<open>The bounds the loop of \<open>twoSequenceSelection\<close> keeps.\<close>

definition tss_bounds :: "'a list \<Rightarrow> 'a list \<Rightarrow> tss_state \<Rightarrow> bool" where
  "tss_bounds A B s \<longleftrightarrow>
     (case s of (begin1, end1, begin2, end2, rank) \<Rightarrow>
        begin1 \<le> end1 \<and> end1 \<le> length A \<and> begin2 \<le> end2 \<and> end2 \<le> length B \<and>
        0 \<le> rank \<and> rank \<le> int (end1 - begin1) + int (end2 - begin2))"

text \<open>
  The order facts the loop keeps for the rank \<open>k\<close>: the positions before the two ranges
  hold \<open>k - rank\<close> elements; the elements of \<open>B\<close> in its range are less than the elements
  of \<open>A\<close> behind its range and not less than those before it; the elements of \<open>B\<close>
  before its range are less than those of \<open>A\<close> from \<open>begin1\<close> on, and those behind its
  range are not less than those of \<open>A\<close> before \<open>end1\<close>.
\<close>

definition tss_order :: "('a \<Rightarrow> 'a \<Rightarrow> bool) \<Rightarrow> 'a list \<Rightarrow> 'a list \<Rightarrow> int \<Rightarrow> tss_state \<Rightarrow> bool" where
  "tss_order cmp A B k s \<longleftrightarrow>
     (case s of (begin1, end1, begin2, end2, rank) \<Rightarrow>
        int begin1 + int begin2 + rank = k \<and>
        (\<forall>i j. begin2 \<le> i \<and> i < end2 \<and> end1 \<le> j \<and> j < length A \<longrightarrow> cmp (B ! i) (A ! j)) \<and>
        (\<forall>i j. begin2 \<le> i \<and> i < end2 \<and> j < begin1 \<longrightarrow> \<not> cmp (B ! i) (A ! j)) \<and>
        (\<forall>i j. i < begin2 \<and> begin1 \<le> j \<and> j < length A \<longrightarrow> cmp (B ! i) (A ! j)) \<and>
        (\<forall>i j. end2 \<le> i \<and> i < length B \<and> j < end1 \<longrightarrow> \<not> cmp (B ! i) (A ! j)))"

text \<open>
  The intervals of a list of runs that starts at offset \<open>off\<close>: every run of two or more
  strings, and the last run whatever its length.
\<close>

fun run_ranges :: "nat \<Rightarrow> 'a list list \<Rightarrow> (nat \<times> nat) list" where
  "run_ranges off [] = []"
| "run_ranges off [r] = [(off, off + length r)]"
| "run_ranges off (r # r' # rs) =
     (if length r \<noteq> 1 then [(off, off + length r)] else []) @ run_ranges (off + length r) (r' # rs)"







section \<open>Properties of the binary searches\<close>

lemma lower_bound_loop_spec:
  assumes "first + len \<le> length v"
    and "\<forall>i j. first \<le> i \<and> i < j \<and> j < first + len \<and> cmp (v ! j) val \<longrightarrow> cmp (v ! i) val"
  shows "first \<le> lower_bound_loop cmp v first len val \<and>
         lower_bound_loop cmp v first len val \<le> first + len \<and>
         (\<forall>i. first \<le> i \<and> i < lower_bound_loop cmp v first len val \<longrightarrow> cmp (v ! i) val) \<and>
         (\<forall>i. lower_bound_loop cmp v first len val \<le> i \<and> i < first + len \<longrightarrow> \<not> cmp (v ! i) val)"
  using assms
proof (induction cmp v first len val rule: lower_bound_loop.induct)
  case (1 cmp v first len val)
  show ?case
  proof (cases "0 < len")
    case False
    then show ?thesis by (subst (1 2 3 4) lower_bound_loop.simps) auto
  next
    case True
    define half where "half = len div 2"
    define middle where "middle = first + half"
    have hl: "half < len" using True by (simp add: half_def)
    show ?thesis
    proof (cases "cmp (v ! middle) val")
      case c: True
      have eq: "lower_bound_loop cmp v first len val = lower_bound_loop cmp v (middle + 1) (len - half - 1) val"
        using True c by (subst lower_bound_loop.simps) (simp add: half_def middle_def Let_def)
      have e: "(middle + 1) + (len - half - 1) = first + len" using hl by (simp add: middle_def)
      have IH: "middle + 1 \<le> lower_bound_loop cmp v (middle + 1) (len - half - 1) val \<and>
         lower_bound_loop cmp v (middle + 1) (len - half - 1) val \<le> (middle + 1) + (len - half - 1) \<and>
         (\<forall>i. middle + 1 \<le> i \<and> i < lower_bound_loop cmp v (middle + 1) (len - half - 1) val \<longrightarrow> cmp (v ! i) val) \<and>
         (\<forall>i. lower_bound_loop cmp v (middle + 1) (len - half - 1) val \<le> i \<and> i < (middle + 1) + (len - half - 1) \<longrightarrow> \<not> cmp (v ! i) val)"
      proof (rule "1.IH"(1)[OF True half_def middle_def c])
        show "middle + 1 + (len - half - 1) \<le> length v" using "1.prems"(1) e by simp
        show "\<forall>i j. middle + 1 \<le> i \<and> i < j \<and> j < middle + 1 + (len - half - 1) \<and> cmp (v ! j) val \<longrightarrow> cmp (v ! i) val"
        proof (intro allI impI)
          fix i j assume "middle + 1 \<le> i \<and> i < j \<and> j < middle + 1 + (len - half - 1) \<and> cmp (v ! j) val"
          then have "first \<le> i \<and> i < j \<and> j < first + len \<and> cmp (v ! j) val" using e by (simp add: middle_def)
          then show "cmp (v ! i) val" using "1.prems"(2) by blast
        qed
      qed
      have below: "cmp (v ! i) val" if "first \<le> i" "i \<le> middle" for i
      proof (cases "i = middle")
        case True then show ?thesis using c by simp
      next
        case False
        then have "i < middle" "middle < first + len" using that hl by (auto simp: middle_def)
        then show ?thesis using "1.prems"(2) that(1) c by blast
      qed
      have r1: "first \<le> lower_bound_loop cmp v (middle + 1) (len - half - 1) val"
        using IH by (simp add: middle_def)
      have r3: "cmp (v ! i) val" if "first \<le> i" "i < lower_bound_loop cmp v (middle + 1) (len - half - 1) val" for i
      proof (cases "i \<le> middle")
        case True then show ?thesis using below that by simp
      next
        case False then show ?thesis using IH that by simp
      qed
      have r4: "\<not> cmp (v ! i) val" if "lower_bound_loop cmp v (middle + 1) (len - half - 1) val \<le> i" "i < first + len" for i
        using IH that e by simp
      show ?thesis unfolding eq using r1 r3 r4 IH e by simp
    next
      case c: False
      have eq: "lower_bound_loop cmp v first len val = lower_bound_loop cmp v first half val"
        using True c by (subst lower_bound_loop.simps) (simp add: half_def middle_def Let_def)
      have IH: "first \<le> lower_bound_loop cmp v first half val \<and>
         lower_bound_loop cmp v first half val \<le> first + half \<and>
         (\<forall>i. first \<le> i \<and> i < lower_bound_loop cmp v first half val \<longrightarrow> cmp (v ! i) val) \<and>
         (\<forall>i. lower_bound_loop cmp v first half val \<le> i \<and> i < first + half \<longrightarrow> \<not> cmp (v ! i) val)"
      proof (rule "1.IH"(2)[OF True half_def middle_def c])
        show "first + half \<le> length v" using "1.prems"(1) hl by simp
        show "\<forall>i j. first \<le> i \<and> i < j \<and> j < first + half \<and> cmp (v ! j) val \<longrightarrow> cmp (v ! i) val"
        proof (intro allI impI)
          fix i j assume "first \<le> i \<and> i < j \<and> j < first + half \<and> cmp (v ! j) val"
          then have "first \<le> i \<and> i < j \<and> j < first + len \<and> cmp (v ! j) val" using hl by simp
          then show "cmp (v ! i) val" using "1.prems"(2) by blast
        qed
      qed
      have above: "\<not> cmp (v ! i) val" if "middle \<le> i" "i < first + len" for i
      proof (cases "i = middle")
        case True then show ?thesis using c by simp
      next
        case False
        then have "middle < i" "first \<le> middle" using that by (auto simp: middle_def)
        then show ?thesis using "1.prems"(2) that(2) c by blast
      qed
      have r4: "\<not> cmp (v ! i) val" if "lower_bound_loop cmp v first half val \<le> i" "i < first + len" for i
      proof (cases "i < middle")
        case True then show ?thesis using IH that by (simp add: middle_def)
      next
        case False then show ?thesis using above that by simp
      qed
      have r2: "lower_bound_loop cmp v first half val \<le> first + len" using IH hl by simp
      show ?thesis unfolding eq using r2 r4 IH by simp
    qed
  qed
qed

lemma upper_bound_loop_as_lower:
  "upper_bound_loop cmp v first len val = lower_bound_loop (\<lambda>x y. \<not> cmp y x) v first len val"
proof (induction cmp v first len val rule: upper_bound_loop.induct)
  case (1 cmp v first len val)
  show ?case
  proof (cases "0 < len")
    case False
    then show ?thesis by (subst upper_bound_loop.simps, subst lower_bound_loop.simps) simp
  next
    case True
    show ?thesis
    proof (cases "cmp val (v ! (first + len div 2))")
      case c: True
      show ?thesis
        using True c "1.IH"(1)[OF True refl refl c]
        by (subst upper_bound_loop.simps, subst lower_bound_loop.simps) (simp add: Let_def)
    next
      case c: False
      show ?thesis
        using True c "1.IH"(2)[OF True refl refl c]
        by (subst upper_bound_loop.simps, subst lower_bound_loop.simps) (simp add: Let_def)
    qed
  qed
qed

lemma first_index_eqI:
  assumes "r \<le> length v" "\<And>i. i < r \<Longrightarrow> \<not> P (v ! i)" "r < length v \<Longrightarrow> P (v ! r)"
  shows "first_index P v = r"
proof -
  have "takeWhile (\<lambda>x. \<not> P x) v = take r v"
  proof (rule takeWhile_eq_take_P_nth)
    show "\<And>i. i < r \<Longrightarrow> i < length v \<Longrightarrow> \<not> P (v ! i)" using assms by auto
    show "r < length v \<Longrightarrow> \<not> \<not> P (v ! r)" using assms by auto
  qed
  then show ?thesis using assms by (simp add: first_index_def)
qed

lemma is_sorted_nth: "is_sorted cmp v \<Longrightarrow> i < j \<Longrightarrow> j < length v \<Longrightarrow> \<not> cmp (v ! j) (v ! i)"
  by (simp add: is_sorted_def sorted_wrt_iff_nth_less)

lemma swo_irrefl: "strict_weak_order cmp \<Longrightarrow> \<not> cmp a a"
  by (simp add: strict_weak_order_def)


lemma swo_asym: "strict_weak_order cmp \<Longrightarrow> cmp a b \<Longrightarrow> \<not> cmp b a"
  unfolding strict_weak_order_def by blast

lemma swo_cases: "strict_weak_order cmp \<Longrightarrow> cmp a c \<Longrightarrow> cmp a b \<or> cmp b c"
  unfolding strict_weak_order_def by blast

lemma swo_le_less_trans: "strict_weak_order cmp \<Longrightarrow> \<not> cmp b a \<Longrightarrow> cmp b c \<Longrightarrow> cmp a c"
  using swo_cases by metis

lemma swo_less_le_trans: "strict_weak_order cmp \<Longrightarrow> cmp a b \<Longrightarrow> \<not> cmp c b \<Longrightarrow> cmp a c"
  using swo_cases by metis

lemma swo_le_trans: "strict_weak_order cmp \<Longrightarrow> \<not> cmp b a \<Longrightarrow> \<not> cmp c b \<Longrightarrow> \<not> cmp c a"
  using swo_cases by metis

lemma lower_bound_range:
  assumes swo: "strict_weak_order cmp" and srt: "is_sorted cmp v"
    and rng: "b \<le> e" "e \<le> length v"
  shows "b \<le> lower_bound cmp v b e s \<and> lower_bound cmp v b e s \<le> e \<and>
         (\<forall>i. b \<le> i \<and> i < lower_bound cmp v b e s \<longrightarrow> cmp (v ! i) s) \<and>
         (\<forall>i. lower_bound cmp v b e s \<le> i \<and> i < e \<longrightarrow> \<not> cmp (v ! i) s)"
proof -
  have mono: "\<forall>i j. b \<le> i \<and> i < j \<and> j < b + (e - b) \<and> cmp (v ! j) s \<longrightarrow> cmp (v ! i) s"
  proof (intro allI impI)
    fix i j assume a: "b \<le> i \<and> i < j \<and> j < b + (e - b) \<and> cmp (v ! j) s"
    then have "j < length v" "i < j" using rng by simp_all
    then have "\<not> cmp (v ! j) (v ! i)" using is_sorted_nth[OF srt] by simp
    then show "cmp (v ! i) s" using swo_le_less_trans[OF swo] a by blast
  qed
  have "b + (e - b) \<le> length v" using rng by simp
  from lower_bound_loop_spec[of b "e - b" v cmp s, OF this mono]
  show ?thesis using rng by (simp add: lower_bound_def)
qed

lemma upper_bound_range:
  assumes swo: "strict_weak_order cmp" and srt: "is_sorted cmp v"
    and rng: "b \<le> e" "e \<le> length v"
  shows "b \<le> upper_bound cmp v b e s \<and> upper_bound cmp v b e s \<le> e \<and>
         (\<forall>i. b \<le> i \<and> i < upper_bound cmp v b e s \<longrightarrow> \<not> cmp s (v ! i)) \<and>
         (\<forall>i. upper_bound cmp v b e s \<le> i \<and> i < e \<longrightarrow> cmp s (v ! i))"
proof -
  have mono: "\<forall>i j. b \<le> i \<and> i < j \<and> j < b + (e - b) \<and> \<not> cmp s (v ! j) \<longrightarrow> \<not> cmp s (v ! i)"
  proof (intro allI impI notI)
    fix i j assume a: "b \<le> i \<and> i < j \<and> j < b + (e - b) \<and> \<not> cmp s (v ! j)" and c: "cmp s (v ! i)"
    then have "j < length v" "i < j" using rng by simp_all
    then have "\<not> cmp (v ! j) (v ! i)" using is_sorted_nth[OF srt] by simp
    then have "cmp s (v ! j)" using swo_less_le_trans[OF swo c] by blast
    then show False using a by simp
  qed
  have "b + (e - b) \<le> length v" using rng by simp
  from lower_bound_loop_spec[of b "e - b" v "\<lambda>x y. \<not> cmp y x" s, OF this mono]
  show ?thesis using rng by (simp add: upper_bound_def upper_bound_loop_as_lower)
qed

lemma lower_bound_sorted:
  assumes swo: "strict_weak_order cmp" and srt: "is_sorted cmp v"
  shows "lower_bound cmp v 0 (length v) s = first_index (\<lambda>x. \<not> cmp x s) v"
proof (rule first_index_eqI[symmetric])
  note lb = lower_bound_range[OF swo srt le0 order_refl, of s]
  show "lower_bound cmp v 0 (length v) s \<le> length v" using lb by simp
  show "\<not> \<not> cmp (v ! i) s" if "i < lower_bound cmp v 0 (length v) s" for i using lb that by simp
  show "\<not> cmp (v ! lower_bound cmp v 0 (length v) s) s" if "lower_bound cmp v 0 (length v) s < length v"
    using lb that by simp
qed

lemma upper_bound_sorted:
  assumes swo: "strict_weak_order cmp" and srt: "is_sorted cmp v"
  shows "upper_bound cmp v (first_index (\<lambda>x. \<not> cmp x s) v) (length v) s = first_index (\<lambda>x. cmp s x) v"
proof (rule first_index_eqI[symmetric])
  let ?L = "first_index (\<lambda>x. \<not> cmp x s) v"
  let ?U = "upper_bound cmp v ?L (length v) s"
  note lb = lower_bound_range[OF swo srt le0 order_refl, of s, unfolded lower_bound_sorted[OF swo srt]]
  have L: "?L \<le> length v" using lb by simp
  note ub = upper_bound_range[OF swo srt L order_refl, of s]
  show "?U \<le> length v" using ub by simp
  show "\<not> cmp s (v ! i)" if "i < ?U" for i
  proof (cases "i < ?L")
    case True
    then have "cmp (v ! i) s" using lb by simp
    then show ?thesis using swo_asym[OF swo] by blast
  next
    case False
    then show ?thesis using ub that by simp
  qed
  show "cmp s (v ! ?U)" if "?U < length v" using ub that by simp
qed


section \<open>LocateSplitter\<close>

text \<open>
  C4. For a sorted vector \<open>v\<close> and a pivot \<open>s\<close>, with \<open>L\<close> the first index whose
  element is not less than \<open>s\<close>: without robust mode \<open>locateSplitter\<close> returns \<open>L\<close> and
  leaves the random state alone; in robust mode, with \<open>U\<close> the first index whose element
  is greater than \<open>s\<close> and \<open>opt\<close> equal to \<open>|v| div 2\<close>, plus one when \<open>|v|\<close> is odd and
  the drawn bit is set, it returns \<open>min opt U\<close> if \<open>L < opt\<close> and \<open>L\<close> otherwise.
\<close>

theorem locateSplitter_spec:
  assumes "strict_weak_order cmp" and "is_sorted cmp v"
  shows "locateSplitter v cmp s gen bit_store False =
           (first_index (\<lambda>x. \<not> cmp x s) v, bit_store, gen) \<and>
         fst (locateSplitter v cmp s gen bit_store True) =
           (let L = first_index (\<lambda>x. \<not> cmp x s) v;
                U = first_index (\<lambda>x. cmp s x) v;
                opt = length v div 2 +
                      (if length v mod 2 = 1 \<and> fst (getNextBit bit_store gen) then 1 else 0)
            in if L < opt then min opt U else L)"
  using assms
  by (simp add: locateSplitter_def lower_bound_sorted upper_bound_sorted Let_def split: prod.splits)

theorem locateSplitter_spec_witness:
  "strict_weak_order ((<) :: nat \<Rightarrow> nat \<Rightarrow> bool) \<and> is_sorted (<) [1, 2, 2, 2, 3 :: nat] \<and>
   locateSplitter [1, 2, 2, 2, 3 :: nat] (<) 2 (\<lambda>_. 1) \<lparr>cached = 0, residual = 0\<rparr> False =
     (1, \<lparr>cached = 0, residual = 0\<rparr>, \<lambda>_. 1) \<and>
   fst (locateSplitter [1, 2, 2, 2, 3 :: nat] (<) 2 (\<lambda>_. 1) \<lparr>cached = 0, residual = 0\<rparr> True) = 3"
proof -
  have h1: "strict_weak_order ((<) :: nat \<Rightarrow> nat \<Rightarrow> bool)"
    by (auto simp: strict_weak_order_def)
  have h2: "is_sorted (<) [1, 2, 2, 2, 3 :: nat]"
    by (simp add: is_sorted_def)
  show ?thesis
    using h1 h2
      locateSplitter_spec [OF h1 h2, of 2 "\<lambda>_. 1" "\<lparr>cached = 0, residual = 0\<rparr>"]
    by (simp add: first_index_def getNextBit_def gen_draw_def)
qed

text \<open>
  C5 (scenario S6), as stated: with a generator whose next word has its lowest bit set, the
  nine strings \<open>a a a a b b b b b\<close> are split at 5, not at 4.
\<close>

theorem locateSplitter_S6_counterexample:
  "fst (locateSplitter
     [\<lparr>chars = [97], index = 0\<rparr>, \<lparr>chars = [97], index = 0\<rparr>, \<lparr>chars = [97], index = 0\<rparr>,
      \<lparr>chars = [97], index = 0\<rparr>, \<lparr>chars = [98], index = 0\<rparr>, \<lparr>chars = [98], index = 0\<rparr>,
      \<lparr>chars = [98], index = 0\<rparr>, \<lparr>chars = [98], index = 0\<rparr>, \<lparr>chars = [98], index = 0\<rparr>]
     StringComparator \<lparr>chars = [98], index = 0\<rparr> (\<lambda>_. 1) \<lparr>cached = 0, residual = 0\<rparr> True) = 5"
  by (simp add: locateSplitter_def lower_bound_def upper_bound_def lower_bound_loop.simps
      upper_bound_loop.simps StringComparator_def c_str_def getNextBit_def gen_draw_def)

text \<open>
  C5, amended: on \<open>a a a a b b b b b\<close> with pivot \<open>b\<close>, robust \<open>locateSplitter\<close> returns 4
  when the bit it draws is 0 and 5 when the bit is 1.
\<close>

theorem locateSplitter_S6:
  "fst (locateSplitter
     [\<lparr>chars = [97], index = 0\<rparr>, \<lparr>chars = [97], index = 0\<rparr>, \<lparr>chars = [97], index = 0\<rparr>,
      \<lparr>chars = [97], index = 0\<rparr>, \<lparr>chars = [98], index = 0\<rparr>, \<lparr>chars = [98], index = 0\<rparr>,
      \<lparr>chars = [98], index = 0\<rparr>, \<lparr>chars = [98], index = 0\<rparr>, \<lparr>chars = [98], index = 0\<rparr>]
     StringComparator \<lparr>chars = [98], index = 0\<rparr> gen bit_store True) =
   (if fst (getNextBit bit_store gen) then 5 else 4)"
  by (simp add: locateSplitter_def lower_bound_def upper_bound_def lower_bound_loop.simps
      upper_bound_loop.simps StringComparator_def c_str_def split: prod.splits)

theorem locateSplitter_S6_witness:
  "fst (locateSplitter
     [\<lparr>chars = [97], index = 0\<rparr>, \<lparr>chars = [97], index = 0\<rparr>, \<lparr>chars = [97], index = 0\<rparr>,
      \<lparr>chars = [97], index = 0\<rparr>, \<lparr>chars = [98], index = 0\<rparr>, \<lparr>chars = [98], index = 0\<rparr>,
      \<lparr>chars = [98], index = 0\<rparr>, \<lparr>chars = [98], index = 0\<rparr>, \<lparr>chars = [98], index = 0\<rparr>]
     StringComparator \<lparr>chars = [98], index = 0\<rparr> (\<lambda>_. 0) \<lparr>cached = 0, residual = 0\<rparr> True) = 4"
  using locateSplitter_S6 [of "\<lambda>_. 0" "\<lparr>cached = 0, residual = 0\<rparr>"]
  by (simp add: getNextBit_def gen_draw_def)

section \<open>MiddleMostPicker\<close>

lemma map_nth_upt_take_drop:
  assumes "b + k \<le> length xs"
  shows "map (\<lambda>i. xs ! i) [b..<b + k] = take k (drop b xs)"
  using assms by (intro nth_equalityI) (auto simp: add.commute)

lemma foldl_push_string:
  "foldl (push_string isIndexed) d xs =
     \<lparr>rawStrings = rawStrings d @ concat (map c_str xs),
      indices = indices d @ (if isIndexed then map index xs else [])\<rparr>"
  by (induction xs arbitrary: d) (simp_all add: push_string_def)

lemma foldl_push_string_upt:
  assumes "b + k \<le> length ss"
  shows "foldl (\<lambda>d i. push_string isIndexed d (ss ! i)) \<lparr>rawStrings = [], indices = []\<rparr> [b..<b + k] =
     \<lparr>rawStrings = concat (map c_str (take k (drop b ss))),
      indices = (if isIndexed then map index (take k (drop b ss)) else [])\<rparr>"
proof -
  have "foldl (\<lambda>d i. push_string isIndexed d (ss ! i)) \<lparr>rawStrings = [], indices = []\<rparr> [b..<b + k] =
        foldl (push_string isIndexed) \<lparr>rawStrings = [], indices = []\<rparr> (map (\<lambda>i. ss ! i) [b..<b + k])"
    by (simp add: foldl_map)
  then show ?thesis
    by (simp add: map_nth_upt_take_drop[OF assms] foldl_push_string)
qed

lemma foldl_append_c_str:
  "foldl (\<lambda>acc x. acc @ c_str x) acc xs = acc @ concat (map c_str xs)"
  by (induction xs arbitrary: acc) simp_all

lemma foldl_append_c_str_upt:
  assumes "b + k \<le> length ss"
  shows "foldl (\<lambda>acc i. acc @ c_str (ss ! i)) [] [b..<b + k] = concat (map c_str (take k (drop b ss)))"
proof -
  have "foldl (\<lambda>acc i. acc @ c_str (ss ! i)) [] [b..<b + k] =
        foldl (\<lambda>acc x. acc @ c_str x) [] (map (\<lambda>i. ss ! i) [b..<b + k])"
    by (simp add: foldl_map)
  then show ?thesis
    by (simp add: map_nth_upt_take_drop[OF assms] foldl_append_c_str)
qed

lemma middle_in_bounds:
  assumes "k < n"
  shows "(n - k) div 2 + middle_shift n k bit_gen async_gen + k \<le> n"
proof (cases "n mod 2 = k mod 2")
  case True
  then show ?thesis using assms by (simp add: middle_shift_def)
next
  case False
  then have "(n - k) mod 2 = 1" using assms by presburger
  then have "2 * ((n - k) div 2) + 1 = n - k" by presburger
  then have "(n - k) div 2 + 1 + k \<le> n" using assms by linarith
  moreover have "middle_shift n k bit_gen async_gen \<le> 1" by (simp add: middle_shift_def)
  ultimately show ?thesis by linarith
qed

text \<open>
  The window: with \<open>n > k\<close> strings in the container, \<open>off = (n - k) div 2\<close> and the
  shift of the specification, the result holds exactly the \<open>k\<close> strings at positions
  \<open>[off + shift, off + shift + k)\<close>, which lie inside the container. The KaDiS copy of
  the function returns the same characters.
\<close>

lemma middleMostElements_window:
  assumes kn: "k < cont_size c"
  shows "let off = (cont_size c - k) div 2;
             shift = middle_shift (cont_size c) k bit_gen async_gen;
             picked = take k (drop (off + shift) (strings c))
         in off + shift + k \<le> cont_size c \<and> length picked = k \<and>
            fst (middleMostElements isIndexed c k async_gen bit_gen) =
              \<lparr>rawStrings = concat (map c_str picked),
               indices = (if isIndexed then map index picked else [])\<rparr> \<and>
            fst (middleMostElements_KaDiS c k async_gen bit_gen) = concat (map c_str picked)"
proof -
  define n where "n = cont_size c"
  define off where "off = (n - k) div 2"
  define shift where "shift = middle_shift n k bit_gen async_gen"
  have bnd: "off + shift + k \<le> length (strings c)"
    using middle_in_bounds[of k n bit_gen async_gen] kn
    by (simp add: off_def shift_def n_def cont_size_def)
  have par: "(n mod 2 = 0 \<and> k mod 2 = 0 \<or> n mod 2 = 1 \<and> k mod 2 = 1) \<longleftrightarrow> n mod 2 = k mod 2"
    by presburger
  have len: "length (take k (drop (off + shift) (strings c))) = k" using bnd by simp
  obtain b bit_gen' async_gen' where gn: "getNextBit bit_gen async_gen = (b, bit_gen', async_gen')"
    by (cases "getNextBit bit_gen async_gen") auto
  have nn: "cont_size c = n" by (simp add: n_def)
  consider (ee) "n mod 2 = 0" "k mod 2 = 0" | (oo) "n mod 2 = 1" "k mod 2 = 1"
    | (eo) "n mod 2 = 0" "k mod 2 = 1" | (oe) "n mod 2 = 1" "k mod 2 = 0"
    by linarith
  then have m: "fst (middleMostElements isIndexed c k async_gen bit_gen) =
       foldl (\<lambda>d i. push_string isIndexed d (strings c ! i))
                \<lparr>rawStrings = [], indices = []\<rparr> [off + shift..<off + shift + k] \<and>
       fst (middleMostElements_KaDiS c k async_gen bit_gen) =
       foldl (\<lambda>acc i. acc @ c_str (strings c ! i)) [] [off + shift..<off + shift + k]"
  proof cases
    case ee
    then show ?thesis using kn
      by (simp add: middleMostElements_def middleMostElements_KaDiS_def Let_def nn off_def shift_def middle_shift_def)
  next
    case oo
    then show ?thesis using kn
      by (simp add: middleMostElements_def middleMostElements_KaDiS_def Let_def nn off_def shift_def middle_shift_def)
  next
    case eo
    then show ?thesis using kn
      by (simp add: middleMostElements_def middleMostElements_KaDiS_def Let_def nn off_def shift_def middle_shift_def gn)
  next
    case oe
    then show ?thesis using kn
      by (simp add: middleMostElements_def middleMostElements_KaDiS_def Let_def nn off_def shift_def middle_shift_def gn)
  qed
  have m1: "fst (middleMostElements isIndexed c k async_gen bit_gen) =
       \<lparr>rawStrings = concat (map c_str (take k (drop (off + shift) (strings c)))),
        indices = (if isIndexed then map index (take k (drop (off + shift) (strings c))) else [])\<rparr>"
    using m by (simp only: foldl_push_string_upt[OF bnd])
  have m2: "fst (middleMostElements_KaDiS c k async_gen bit_gen) =
       concat (map c_str (take k (drop (off + shift) (strings c))))"
    using m by (simp only: foldl_append_c_str_upt[OF bnd])
  show ?thesis
    using bnd len m1 m2
    by (simp add: Let_def n_def off_def shift_def cont_size_def)
qed

text \<open>
  The whole container: for \<open>n \<le> k\<close> the function copies the character buffer as it
  lies in memory and the indices in the order of the views. When the buffer holds the
  strings in the order of the views, the result is the packed copy of the strings of the
  container, and the random state is untouched.
\<close>

lemma middleMostElements_all:
  assumes "cont_size c \<le> k" and "raw_strings c = concat (map c_str (strings c))"
  shows "middleMostElements isIndexed c k async_gen bit_gen =
           (\<lparr>rawStrings = concat (map c_str (strings c)),
             indices = (if isIndexed then map index (strings c) else [])\<rparr>, bit_gen, async_gen)"
    and "middleMostElements_KaDiS c k async_gen bit_gen =
           (concat (map c_str (strings c)), bit_gen, async_gen)"
  using assms by (simp_all add: middleMostElements_def middleMostElements_KaDiS_def)

text \<open>
  C6, at a failing input. A rank holds the strings \<open>b\<close> with index 5 and \<open>a\<close> with
  index 3, in this order. The local sort permutes the views and leaves the characters:
  the container is sorted, with the views \<open>a\<close> (index 3), \<open>b\<close> (index 5) over the
  buffer \<open>b, a\<close>. For \<open>k = 2\<close> the function returns the buffer
  \<open>b, a\<close> with the indices 3, 5 of the views, which are the strings \<open>b\<close> with index 3
  and \<open>a\<close> with index 5: not a copy of the container.
\<close>

theorem middleMostElements_failing_input:
  "sortLocally True (moveToContainer True \<lparr>rawStrings = [98, 0, 97, 0], indices = [5, 3]\<rparr>) =
     \<lparr>raw_strings = [98, 0, 97, 0],
      strings = [\<lparr>chars = [97], index = 3\<rparr>, \<lparr>chars = [98], index = 5\<rparr>]\<rparr> \<and>
   is_sorted IndexStringComparator [\<lparr>chars = [97], index = 3\<rparr>, \<lparr>chars = [98], index = 5\<rparr>] \<and>
   fst (middleMostElements True
          \<lparr>raw_strings = [98, 0, 97, 0],
           strings = [\<lparr>chars = [97], index = 3\<rparr>, \<lparr>chars = [98], index = 5\<rparr>]\<rparr>
          2 async_gen bit_gen) =
     \<lparr>rawStrings = [98, 0, 97, 0], indices = [3, 5]\<rparr> \<and>
   strings (moveToContainer True \<lparr>rawStrings = [98, 0, 97, 0], indices = [3, 5]\<rparr>) =
     [\<lparr>chars = [98], index = 3\<rparr>, \<lparr>chars = [97], index = 5\<rparr>]"
proof (intro conjI)
  show "sortLocally True (moveToContainer True \<lparr>rawStrings = [98, 0, 97, 0], indices = [5, 3]\<rparr>) =
     \<lparr>raw_strings = [98, 0, 97, 0],
      strings = [\<lparr>chars = [97], index = 3\<rparr>, \<lparr>chars = [98], index = 5\<rparr>]\<rparr>"
    by (simp add: sortLocally_def moveToContainer_def make_container_def radixsort_CI3_def
          visible_def lcp_array_def getDuplicateRanges_def dup_step_def sortRanges_def
          sort_range_def getLength_def Let_def)
  show "is_sorted IndexStringComparator
          [\<lparr>chars = [97], index = 3\<rparr>, \<lparr>chars = [98], index = 5\<rparr>]"
    by (simp add: is_sorted_def IndexStringComparator_def c_str_def)
  show "fst (middleMostElements True
          \<lparr>raw_strings = [98, 0, 97, 0],
           strings = [\<lparr>chars = [97], index = 3\<rparr>, \<lparr>chars = [98], index = 5\<rparr>]\<rparr>
          2 async_gen bit_gen) =
     \<lparr>rawStrings = [98, 0, 97, 0], indices = [3, 5]\<rparr>"
    by (simp add: middleMostElements_def cont_size_def)
  show "strings (moveToContainer True \<lparr>rawStrings = [98, 0, 97, 0], indices = [3, 5]\<rparr>) =
     [\<lparr>chars = [98], index = 3\<rparr>, \<lparr>chars = [97], index = 5\<rparr>]"
    by (simp add: moveToContainer_def make_container_def)
qed

section \<open>PairwiseExchange\<close>

lemma length_u64_bytes [simp]: "length (u64_bytes w) = 8"
  by (simp add: u64_bytes_def)


















text \<open>
  C7, at a failing input: the partner holds the string \<open>x\<close> with index 7 and sends eight
  bytes of index memory; the receiver resizes its index vector to eight elements, so the
  received \<open>Data\<close> holds eight indices for one string. \<open>Data::Recv\<close> does the same.
\<close>

theorem exchange_indexed_failing_input:
  "exchange True \<lparr>rawStrings = [107, 0], indices = [3]\<rparr>
       (Send True \<lparr>rawStrings = [120, 0], indices = [7]\<rparr>) =
     \<lparr>rawStrings = [120, 0], indices = [7, 0, 0, 0, 0, 0, 0, 0]\<rparr> \<and>
   Recv True (Send True \<lparr>rawStrings = [120, 0], indices = [7]\<rparr>) =
     \<lparr>rawStrings = [120, 0], indices = [7, 0, 0, 0, 0, 0, 0, 0]\<rparr>"
  by (simp add: exchange_def Recv_def Send_def irecv_u64_def u64_image_def u64_bytes_def
      bytes_u64_def Let_def)

section \<open>FoldToPow2\<close>

text \<open>
  C8, at a failing input: three ranks in indexed mode, each with one string and one index.
  Rank 2 sends to rank 0, which appends the received character bytes exactly but ends with
  nine indices for its two strings: the received index and seven more zero entries.
\<close>

theorem move_to_pow_of_two_failing_input:
  "move_to_pow_of_two True
     [\<lparr>rawStrings = [97, 0], indices = [1]\<rparr>, \<lparr>rawStrings = [98, 0], indices = [2]\<rparr>,
      \<lparr>rawStrings = [99, 0], indices = [3]\<rparr>] 0 =
   Some \<lparr>rawStrings = [97, 0, 99, 0], indices = [1, 3, 0, 0, 0, 0, 0, 0, 0]\<rparr>"
  by (simp add: move_to_pow_of_two_def round_down_to_power_of_two.simps IReceiveAppend_def
      Send_def irecv_u64_def u64_image_def u64_bytes_def bytes_u64_def Let_def)

section \<open>TwoSequenceSelection\<close>

lemma lower_bound_loop_bounds:
  "first \<le> lower_bound_loop cmp v first len val \<and> lower_bound_loop cmp v first len val \<le> first + len"
proof (induction cmp v first len val rule: lower_bound_loop.induct)
  case (1 cmp v first len val)
  show ?case
  proof (cases "0 < len")
    case False
    then show ?thesis by (subst (1 2) lower_bound_loop.simps) simp
  next
    case True
    have hl: "len div 2 < len" using True by simp
    show ?thesis
    proof (cases "cmp (v ! (first + len div 2)) val")
      case c: True
      have eq: "lower_bound_loop cmp v first len val =
                lower_bound_loop cmp v (first + len div 2 + 1) (len - len div 2 - 1) val"
        using True c by (subst lower_bound_loop.simps) (simp add: Let_def)
      show ?thesis unfolding eq using "1.IH"(1)[OF True refl refl c] hl by linarith
    next
      case c: False
      have eq: "lower_bound_loop cmp v first len val = lower_bound_loop cmp v first (len div 2) val"
        using True c by (subst lower_bound_loop.simps) (simp add: Let_def)
      show ?thesis unfolding eq using "1.IH"(2)[OF True refl refl c] hl by linarith
    qed
  qed
qed

lemma lower_bound_bounds:
  "b \<le> e \<Longrightarrow> b \<le> lower_bound cmp v b e s \<and> lower_bound cmp v b e s \<le> e"
  using lower_bound_loop_bounds[of b cmp v "e - b" s] by (simp add: lower_bound_def)

lemma tss_body_bounds:
  assumes inv: "tss_bounds A B (b1, e1, b2, e2, rank)" and ne: "e1 \<noteq> b1"
    and body: "tss_body cmp A B (b1, e1, b2, e2, rank) = Inr (b1', e1', b2', e2', rank')"
  shows "tss_bounds A B (b1', e1', b2', e2', rank') \<and> e1' - b1' < e1 - b1"
proof -
  define offset1 where "offset1 = (e1 - b1) div 2"
  define splitter1 where "splitter1 = b1 + offset1"
  define splitter2 where "splitter2 = lower_bound cmp B b2 e2 (A ! splitter1)"
  define new_rank where "new_rank = int offset1 + int (splitter2 - b2)"
  from inv have bnd: "b1 \<le> e1" "e1 \<le> length A" "b2 \<le> e2" "e2 \<le> length B" "0 \<le> rank"
    "rank \<le> int (e1 - b1) + int (e2 - b2)"
    by (auto simp: tss_bounds_def)
  have lt: "b1 < e1" using bnd ne by simp
  have o1: "offset1 < e1 - b1" using lt by (simp add: offset1_def)
  have s2: "b2 \<le> splitter2" "splitter2 \<le> e2"
    using lower_bound_bounds[OF bnd(3), of cmp B "A ! splitter1"] by (simp_all add: splitter2_def)
  have body': "tss_body cmp A B (b1, e1, b2, e2, rank) =
      (if rank < new_rank then Inr (b1, splitter1, b2, splitter2, rank)
       else if rank > new_rank then Inr (splitter1 + 1, e1, splitter2, e2, rank - (new_rank + 1))
       else Inl (int splitter1, int splitter2))"
    by (simp add: tss_body_def Let_def offset1_def splitter1_def splitter2_def new_rank_def)
  show ?thesis
  proof (cases "rank < new_rank")
    case True
    then have "(b1', e1', b2', e2', rank') = (b1, splitter1, b2, splitter2, rank)"
      using body body' by simp
    then show ?thesis
      using True bnd o1 s2 by (auto simp: tss_bounds_def splitter1_def new_rank_def)
  next
    case False
    then have gt: "rank > new_rank" using body body' by (auto split: if_splits)
    then have "(b1', e1', b2', e2', rank') = (splitter1 + 1, e1, splitter2, e2, rank - (new_rank + 1))"
      using body body' False by simp
    then show ?thesis
      using gt bnd o1 s2 by (auto simp: tss_bounds_def splitter1_def new_rank_def)
  qed
qed

lemma tss_body_Inl_bounds:
  assumes inv: "tss_bounds A B (b1, e1, b2, e2, rank)" and ne: "e1 \<noteq> b1"
    and body: "tss_body cmp A B (b1, e1, b2, e2, rank) = Inl (a, b)"
  shows "0 \<le> a \<and> a \<le> int (length A) \<and> 0 \<le> b \<and> b \<le> int (length B)"
proof -
  define offset1 where "offset1 = (e1 - b1) div 2"
  define splitter1 where "splitter1 = b1 + offset1"
  define splitter2 where "splitter2 = lower_bound cmp B b2 e2 (A ! splitter1)"
  from inv have bnd: "b1 \<le> e1" "e1 \<le> length A" "b2 \<le> e2" "e2 \<le> length B"
    by (auto simp: tss_bounds_def)
  have lt: "b1 < e1" using bnd ne by simp
  have o1: "offset1 < e1 - b1" using lt by (simp add: offset1_def)
  have s2: "b2 \<le> splitter2" "splitter2 \<le> e2"
    using lower_bound_bounds[OF bnd(3), of cmp B "A ! splitter1"] by (simp_all add: splitter2_def)
  have "a = int splitter1 \<and> b = int splitter2"
    using body
    by (auto simp: tss_body_def Let_def offset1_def splitter1_def splitter2_def split: if_splits)
  then show ?thesis using bnd o1 s2 by (auto simp: splitter1_def)
qed

lemma tss_reach_bounds:
  assumes "tss_reach cmp A B s0 s" and "tss_bounds A B s0"
  shows "tss_bounds A B s"
  using assms
proof (induction rule: tss_reach.induct)
  case start
  then show ?case by simp
next
  case (step begin1 end1 begin2 end2 rank s')
  obtain b1' e1' b2' e2' rank' where s': "s' = (b1', e1', b2', e2', rank')"
    by (cases s') auto
  show ?case
    using tss_body_bounds[OF step.IH[OF step.prems] step.hyps(2) step.hyps(3)[unfolded s']] s'
    by simp
qed

lemma tss_loop_returns:
  assumes "tss_bounds A B (b1, e1, b2, e2, rank)"
  shows "\<exists>a b. tss_loop cmp A B (b1, e1, b2, e2, rank) = Some (a, b) \<and>
           0 \<le> a \<and> a \<le> int (length A) \<and> 0 \<le> b \<and> b \<le> int (length B)"
  using assms
proof (induction "e1 - b1" arbitrary: b1 e1 b2 e2 rank rule: less_induct)
  case less
  from less.prems have bnd: "b1 \<le> e1" "e1 \<le> length A" "b2 \<le> e2" "e2 \<le> length B" "0 \<le> rank"
    "rank \<le> int (e1 - b1) + int (e2 - b2)"
    by (auto simp: tss_bounds_def)
  show ?case
  proof (cases "e1 = b1")
    case True
    then have "tss_loop cmp A B (b1, e1, b2, e2, rank) = Some (int b1, int b2 + rank)"
      by (subst tss_loop.simps) simp
    then show ?thesis using bnd True by auto
  next
    case False
    then have lt: "e1 > b1" using bnd by simp
    show ?thesis
    proof (cases "tss_body cmp A B (b1, e1, b2, e2, rank)")
      case (Inl r)
      obtain a b where r: "r = (a, b)" by (cases r) auto
      have "tss_loop cmp A B (b1, e1, b2, e2, rank) = Some (a, b)"
        using False lt Inl r by (subst tss_loop.simps) simp
      then show ?thesis using tss_body_Inl_bounds[OF less.prems False Inl[unfolded r]] by simp
    next
      case (Inr s')
      obtain b1' e1' b2' e2' rank' where s': "s' = (b1', e1', b2', e2', rank')"
        by (cases s') auto
      note st = tss_body_bounds[OF less.prems False Inr[unfolded s']]
      have "tss_loop cmp A B (b1, e1, b2, e2, rank) = tss_loop cmp A B (b1', e1', b2', e2', rank')"
        using False lt Inr s' by (subst tss_loop.simps) simp
      then show ?thesis using less.hyps[of e1' b1' b2' e2' rank'] st by simp
    qed
  qed
qed

text \<open>
  C10. For every rank \<open>0 \<le> rank \<le> |A| + |B|\<close> the loop of \<open>twoSequenceSelection\<close>
  returns, and the returned positions lie inside the two sequences. Every iteration that
  does not return leaves a first sequence that is shorter by at least one, and a state
  in which the first sequence is exhausted has \<open>0 \<le> rank \<le> end2 - begin2\<close>. Neither
  sortedness nor any property of the comparator is needed for this.
\<close>

theorem twoSequenceSelection_terminates:
  assumes "0 \<le> rank" and "rank \<le> int (length A) + int (length B)"
  shows "(\<exists>a b. twoSequenceSelection A 0 (length A) B 0 (length B) rank cmp = Some (a, b) \<and>
            0 \<le> a \<and> a \<le> int (length A) \<and> 0 \<le> b \<and> b \<le> int (length B)) \<and>
         (\<forall>begin1 end1 begin2 end2 r begin1' end1' begin2' end2' r'.
            tss_reach cmp A B (0, length A, 0, length B, rank) (begin1, end1, begin2, end2, r) \<and>
            end1 \<noteq> begin1 \<and>
            tss_body cmp A B (begin1, end1, begin2, end2, r) = Inr (begin1', end1', begin2', end2', r')
            \<longrightarrow> begin1' \<le> end1' \<and> (end1' - begin1') + 1 \<le> end1 - begin1) \<and>
         (\<forall>begin1 end1 begin2 end2 r.
            tss_reach cmp A B (0, length A, 0, length B, rank) (begin1, end1, begin2, end2, r) \<and>
            end1 = begin1
            \<longrightarrow> 0 \<le> r \<and> r \<le> int (end2 - begin2) \<and> begin2 \<le> end2 \<and> end2 \<le> length B)"
proof -
  have init: "tss_bounds A B (0, length A, 0, length B, rank)"
    using assms by (simp add: tss_bounds_def)
  have reach: "tss_bounds A B s" if "tss_reach cmp A B (0, length A, 0, length B, rank) s" for s
    using tss_reach_bounds[OF that init] .
  show ?thesis
  proof (intro conjI allI impI)
    show "\<exists>a b. twoSequenceSelection A 0 (length A) B 0 (length B) rank cmp = Some (a, b) \<and>
            0 \<le> a \<and> a \<le> int (length A) \<and> 0 \<le> b \<and> b \<le> int (length B)"
      using tss_loop_returns[OF init, of cmp] by (simp add: twoSequenceSelection_def)
  next
    fix begin1 end1 begin2 end2 r begin1' end1' begin2' end2' r'
    assume a: "tss_reach cmp A B (0, length A, 0, length B, rank) (begin1, end1, begin2, end2, r) \<and>
            end1 \<noteq> begin1 \<and>
            tss_body cmp A B (begin1, end1, begin2, end2, r) = Inr (begin1', end1', begin2', end2', r')"
    then have b: "tss_bounds A B (begin1, end1, begin2, end2, r)" using reach by blast
    from tss_body_bounds[OF b] a
    have c: "tss_bounds A B (begin1', end1', begin2', end2', r') \<and> end1' - begin1' < end1 - begin1"
      by blast
    then show "begin1' \<le> end1'" by (simp add: tss_bounds_def)
    from c show "(end1' - begin1') + 1 \<le> end1 - begin1" by simp
  next
    fix begin1 end1 begin2 end2 r
    assume a: "tss_reach cmp A B (0, length A, 0, length B, rank) (begin1, end1, begin2, end2, r) \<and>
            end1 = begin1"
    then have b: "tss_bounds A B (begin1, end1, begin2, end2, r)" using reach by blast
    then show "0 \<le> r" "r \<le> int (end2 - begin2)" "begin2 \<le> end2" "end2 \<le> length B"
      using a by (auto simp: tss_bounds_def)
  qed
qed

theorem twoSequenceSelection_terminates_witness:
  "(0::int) \<le> 3 \<and> (3::int) \<le> int (length [1, 3, 5, 7 :: nat]) + int (length [2, 3, 6, 8 :: nat]) \<and>
   twoSequenceSelection [1, 3, 5, 7 :: nat] 0 4 [2, 3, 6, 8] 0 4 3 (<) = Some (2, 1)"
proof -
  have h3: "(0::int) \<le> 3" "(3::int) \<le> int (length [1, 3, 5, 7 :: nat]) + int (length [2, 3, 6, 8 :: nat])"
    by simp_all
  have len: "length [1, 3, 5, 7 :: nat] = 4" "length [2, 3, 6, 8 :: nat] = 4"
    by simp_all
  have e: "twoSequenceSelection [1, 3, 5, 7 :: nat] 0 4 [2, 3, 6, 8] 0 4 3 (<) = Some (2, 1)"
    unfolding twoSequenceSelection_def
    apply (subst tss_loop.simps)
    apply (simp add: tss_body_def Let_def)
    apply (simp add: lower_bound_def lower_bound_loop.simps Let_def)
    apply (subst tss_loop.simps)
    apply (simp add: tss_body_def Let_def)
    apply (simp add: lower_bound_def lower_bound_loop.simps Let_def)
    apply (subst tss_loop.simps)
    apply simp
    done
  from twoSequenceSelection_terminates [OF h3, of "(<)", unfolded len]
  obtain a b where "twoSequenceSelection [1, 3, 5, 7 :: nat] 0 4 [2, 3, 6, 8] 0 4 3 (<) = Some (a, b)"
    by blast
  then show ?thesis using h3 e by simp
qed

lemma is_sorted_nth_le: "strict_weak_order cmp \<Longrightarrow> is_sorted cmp v \<Longrightarrow> i \<le> j \<Longrightarrow> j < length v \<Longrightarrow> \<not> cmp (v ! j) (v ! i)"
  using is_sorted_nth[of cmp v i j] swo_irrefl[of cmp] by (cases "i = j") auto

lemma tss_body_unfold:
  "tss_body cmp A B (b1, e1, b2, e2, rank) =
     (let splitter1 = b1 + (e1 - b1) div 2;
          splitter2 = lower_bound cmp B b2 e2 (A ! splitter1);
          new_rank = int ((e1 - b1) div 2) + int (splitter2 - b2)
      in if rank < new_rank then Inr (b1, splitter1, b2, splitter2, rank)
         else if rank > new_rank then Inr (splitter1 + 1, e1, splitter2, e2, rank - (new_rank + 1))
         else Inl (int splitter1, int splitter2))"
  by (simp add: tss_body_def Let_def)

lemma tss_body_order:
  assumes swo: "strict_weak_order cmp" and sA: "is_sorted cmp A" and sB: "is_sorted cmp B"
    and inv: "tss_bounds A B (b1, e1, b2, e2, rank)" and ord: "tss_order cmp A B k (b1, e1, b2, e2, rank)"
    and ne: "e1 \<noteq> b1"
  shows "(\<forall>s'. tss_body cmp A B (b1, e1, b2, e2, rank) = Inr s' \<longrightarrow> tss_order cmp A B k s') \<and>
         (\<forall>a b. tss_body cmp A B (b1, e1, b2, e2, rank) = Inl (a, b) \<longrightarrow>
             a + b = k \<and>
             (\<forall>i j. j < nat a \<and> nat b \<le> i \<and> i < length B \<longrightarrow> \<not> cmp (B ! i) (A ! j)) \<and>
             (\<forall>i j. i < nat b \<and> nat a \<le> j \<and> j < length A \<longrightarrow> cmp (B ! i) (A ! j)))"
proof -
  define sp1 where "sp1 = b1 + (e1 - b1) div 2"
  define sp2 where "sp2 = lower_bound cmp B b2 e2 (A ! sp1)"
  define new_rank where "new_rank = int ((e1 - b1) div 2) + int (sp2 - b2)"
  from inv have bnd: "b1 \<le> e1" "e1 \<le> length A" "b2 \<le> e2" "e2 \<le> length B" "0 \<le> rank"
    by (auto simp: tss_bounds_def)
  from ord have k: "int b1 + int b2 + rank = k"
    and I1: "\<And>i j. b2 \<le> i \<Longrightarrow> i < e2 \<Longrightarrow> e1 \<le> j \<Longrightarrow> j < length A \<Longrightarrow> cmp (B ! i) (A ! j)"
    and I2: "\<And>i j. b2 \<le> i \<Longrightarrow> i < e2 \<Longrightarrow> j < b1 \<Longrightarrow> \<not> cmp (B ! i) (A ! j)"
    and I3: "\<And>i j. i < b2 \<Longrightarrow> b1 \<le> j \<Longrightarrow> j < length A \<Longrightarrow> cmp (B ! i) (A ! j)"
    and I4: "\<And>i j. e2 \<le> i \<Longrightarrow> i < length B \<Longrightarrow> j < e1 \<Longrightarrow> \<not> cmp (B ! i) (A ! j)"
    by (auto simp: tss_order_def)
  have lt: "b1 < e1" using bnd ne by simp
  have s1: "b1 \<le> sp1" "sp1 < e1" "sp1 < length A" using lt bnd by (auto simp: sp1_def)
  note lb = lower_bound_range[OF swo sB bnd(3) bnd(4), of "A ! sp1", folded sp2_def]
  have s2: "b2 \<le> sp2" "sp2 \<le> e2" using lb by simp_all
  have lbl: "cmp (B ! i) (A ! sp1)" if "b2 \<le> i" "i < sp2" for i using lb that by simp
  have lbr: "\<not> cmp (B ! i) (A ! sp1)" if "sp2 \<le> i" "i < e2" for i using lb that by simp
  have Aup: "\<not> cmp (A ! j) (A ! sp1)" if "sp1 \<le> j" "j < length A" for j
    using is_sorted_nth_le[OF swo sA that] .
  have Adn: "\<not> cmp (A ! sp1) (A ! j)" if "j \<le> sp1" for j
    using is_sorted_nth_le[OF swo sA that s1(3)] .
  \<comment> \<open>elements of B below the splitter are less than the elements of A from the splitter on\<close>
  have L: "cmp (B ! i) (A ! j)" if "i < sp2" "sp1 \<le> j" "j < length A" for i j
  proof (cases "i < b2")
    case True
    then show ?thesis using I3[of i j] that s1 by simp
  next
    case False
    then have "cmp (B ! i) (A ! sp1)" using lbl that by simp
    then show ?thesis using swo_less_le_trans[OF swo _ Aup[OF that(2,3)]] by blast
  qed
  \<comment> \<open>elements of B from the splitter on are not less than the elements of A up to the splitter\<close>
  have R: "\<not> cmp (B ! i) (A ! j)" if "sp2 \<le> i" "i < length B" "j \<le> sp1" for i j
  proof (cases "e2 \<le> i")
    case True
    then show ?thesis using I4[of i j] that s1 by simp
  next
    case False
    then have "\<not> cmp (B ! i) (A ! sp1)" using lbr that by simp
    then show ?thesis using swo_le_trans[OF swo Adn[OF that(3)]] by blast
  qed
  have body: "tss_body cmp A B (b1, e1, b2, e2, rank) =
      (if rank < new_rank then Inr (b1, sp1, b2, sp2, rank)
       else if rank > new_rank then Inr (sp1 + 1, e1, sp2, e2, rank - (new_rank + 1))
       else Inl (int sp1, int sp2))"
    by (simp add: tss_body_unfold Let_def sp1_def sp2_def new_rank_def)
  have nr: "new_rank = int sp1 - int b1 + (int sp2 - int b2)"
    using s1 s2 by (simp add: new_rank_def sp1_def)
  have left: "tss_order cmp A B k (b1, sp1, b2, sp2, rank)"
    unfolding tss_order_def
  proof (simp only: prod.case, intro conjI allI impI)
    show "int b1 + int b2 + rank = k" by (rule k)
  next
    fix i j assume "b2 \<le> i \<and> i < sp2 \<and> sp1 \<le> j \<and> j < length A"
    then show "cmp (B ! i) (A ! j)" using L by blast
  next
    fix i j assume "b2 \<le> i \<and> i < sp2 \<and> j < b1"
    then show "\<not> cmp (B ! i) (A ! j)" using I2[of i j] s2 by simp
  next
    fix i j assume "i < b2 \<and> b1 \<le> j \<and> j < length A"
    then show "cmp (B ! i) (A ! j)" using I3 by blast
  next
    fix i j assume "sp2 \<le> i \<and> i < length B \<and> j < sp1"
    then show "\<not> cmp (B ! i) (A ! j)" using R[of i j] by simp
  qed
  have right: "tss_order cmp A B k (sp1 + 1, e1, sp2, e2, rank - (new_rank + 1))"
    unfolding tss_order_def
  proof (simp only: prod.case, intro conjI allI impI)
    show "int (sp1 + 1) + int sp2 + (rank - (new_rank + 1)) = k" using k nr by simp
  next
    fix i j assume "sp2 \<le> i \<and> i < e2 \<and> e1 \<le> j \<and> j < length A"
    then show "cmp (B ! i) (A ! j)" using I1[of i j] s2 by simp
  next
    fix i j assume "sp2 \<le> i \<and> i < e2 \<and> j < sp1 + 1"
    then show "\<not> cmp (B ! i) (A ! j)" using R[of i j] bnd by simp
  next
    fix i j assume "i < sp2 \<and> sp1 + 1 \<le> j \<and> j < length A"
    then show "cmp (B ! i) (A ! j)" using L[of i j] by simp
  next
    fix i j assume "e2 \<le> i \<and> i < length B \<and> j < e1"
    then show "\<not> cmp (B ! i) (A ! j)" using I4 by blast
  qed
  show ?thesis
  proof (intro conjI allI impI)
    fix s' assume "tss_body cmp A B (b1, e1, b2, e2, rank) = Inr s'"
    then show "tss_order cmp A B k s'" using body left right by (auto split: if_splits)
  next
    fix a b assume r: "tss_body cmp A B (b1, e1, b2, e2, rank) = Inl (a, b)"
    then have ab: "a = int sp1" "b = int sp2" "rank = new_rank"
      using body by (auto split: if_splits)
    show "a + b = k" using ab k nr by simp
    { fix i j assume "j < nat a \<and> nat b \<le> i \<and> i < length B"
      then show "\<not> cmp (B ! i) (A ! j)" using R[of i j] ab by simp }
    { fix i j assume "i < nat b \<and> nat a \<le> j \<and> j < length A"
      then show "cmp (B ! i) (A ! j)" using L[of i j] ab by simp }
  qed
qed

lemma tss_loop_selects:
  assumes swo: "strict_weak_order cmp" and sA: "is_sorted cmp A" and sB: "is_sorted cmp B"
    and inv: "tss_bounds A B (b1, e1, b2, e2, rank)" and ord: "tss_order cmp A B k (b1, e1, b2, e2, rank)"
  shows "\<exists>a b. tss_loop cmp A B (b1, e1, b2, e2, rank) = Some (a, b) \<and>
           0 \<le> a \<and> a \<le> int (length A) \<and> 0 \<le> b \<and> b \<le> int (length B) \<and> a + b = k \<and>
           (\<forall>i j. j < nat a \<and> nat b \<le> i \<and> i < length B \<longrightarrow> \<not> cmp (B ! i) (A ! j)) \<and>
           (\<forall>i j. i < nat b \<and> nat a \<le> j \<and> j < length A \<longrightarrow> cmp (B ! i) (A ! j))"
  using inv ord
proof (induction "e1 - b1" arbitrary: b1 e1 b2 e2 rank rule: less_induct)
  case less
  from less.prems(1) have bnd: "b1 \<le> e1" "e1 \<le> length A" "b2 \<le> e2" "e2 \<le> length B" "0 \<le> rank"
    "rank \<le> int (e1 - b1) + int (e2 - b2)"
    by (auto simp: tss_bounds_def)
  from less.prems(2) have k: "int b1 + int b2 + rank = k"
    and I1: "\<And>i j. b2 \<le> i \<Longrightarrow> i < e2 \<Longrightarrow> e1 \<le> j \<Longrightarrow> j < length A \<Longrightarrow> cmp (B ! i) (A ! j)"
    and I2: "\<And>i j. b2 \<le> i \<Longrightarrow> i < e2 \<Longrightarrow> j < b1 \<Longrightarrow> \<not> cmp (B ! i) (A ! j)"
    and I3: "\<And>i j. i < b2 \<Longrightarrow> b1 \<le> j \<Longrightarrow> j < length A \<Longrightarrow> cmp (B ! i) (A ! j)"
    and I4: "\<And>i j. e2 \<le> i \<Longrightarrow> i < length B \<Longrightarrow> j < e1 \<Longrightarrow> \<not> cmp (B ! i) (A ! j)"
    by (auto simp: tss_order_def)
  show ?case
  proof (cases "e1 = b1")
    case True
    have res: "tss_loop cmp A B (b1, e1, b2, e2, rank) = Some (int b1, int b2 + rank)"
      using True by (subst tss_loop.simps) simp
    have rk: "rank \<le> int (e2 - b2)" using bnd True by simp
    have nb: "nat (int b2 + rank) = b2 + nat rank" using bnd by (simp add: nat_add_distrib)
    have nr: "b2 + nat rank \<le> e2" using rk bnd by linarith
    have c1: "\<not> cmp (B ! i) (A ! j)" if "j < b1" "b2 + nat rank \<le> i" "i < length B" for i j
    proof (cases "i < e2")
      case True
      then show ?thesis using I2[of i j] that by simp
    next
      case False
      then show ?thesis using I4[of i j] that \<open>e1 = b1\<close> by simp
    qed
    have c2: "cmp (B ! i) (A ! j)" if "i < b2 + nat rank" "b1 \<le> j" "j < length A" for i j
    proof (cases "i < b2")
      case True
      then show ?thesis using I3[of i j] that by simp
    next
      case False
      then show ?thesis using I1[of i j] that nr \<open>e1 = b1\<close> by simp
    qed
    show ?thesis
      unfolding res using bnd k rk c1 c2 nb by (simp add: True)
  next
    case False
    then have lt: "e1 > b1" using bnd by simp
    note bo = tss_body_order[OF swo sA sB less.prems(1) less.prems(2) False]
    show ?thesis
    proof (cases "tss_body cmp A B (b1, e1, b2, e2, rank)")
      case (Inl r)
      obtain a b where r: "r = (a, b)" by (cases r) auto
      have "tss_loop cmp A B (b1, e1, b2, e2, rank) = Some (a, b)"
        using False lt Inl r by (subst tss_loop.simps) simp
      then show ?thesis
        using tss_body_Inl_bounds[OF less.prems(1) False Inl[unfolded r]] bo Inl[unfolded r]
        by simp
    next
      case (Inr s')
      obtain b1' e1' b2' e2' rank' where s': "s' = (b1', e1', b2', e2', rank')"
        by (cases s') auto
      note st = tss_body_bounds[OF less.prems(1) False Inr[unfolded s']]
      have o': "tss_order cmp A B k (b1', e1', b2', e2', rank')" using bo Inr s' by simp
      have "tss_loop cmp A B (b1, e1, b2, e2, rank) = tss_loop cmp A B (b1', e1', b2', e2', rank')"
        using False lt Inr s' by (subst tss_loop.simps) simp
      then show ?thesis using less.hyps[of e1' b1' b2' e2' rank'] st o' by simp
    qed
  qed
qed

text \<open>
  C3. For sorted \<open>A\<close> and \<open>B\<close> under a strict weak ordering and every rank
  \<open>0 \<le> k \<le> |A| + |B|\<close>, \<open>twoSequenceSelection\<close> returns positions \<open>(a, b)\<close> with
  \<open>a + b = k\<close>, \<open>a \<le> |A|\<close>, \<open>b \<le> |B|\<close>, such that the prefixes \<open>A[0..a)\<close> and
  \<open>B[0..b)\<close> are the \<open>k\<close> smallest elements, equal elements of \<open>A\<close> ranking before
  those of \<open>B\<close>.
\<close>

theorem twoSequenceSelection_correct:
  assumes "strict_weak_order cmp" and "is_sorted cmp A" and "is_sorted cmp B"
    and "0 \<le> k" and "k \<le> int (length A) + int (length B)"
  shows "\<exists>ab. twoSequenceSelection A 0 (length A) B 0 (length B) k cmp = Some ab \<and>
              selects cmp A B k ab"
proof -
  have init: "tss_bounds A B (0, length A, 0, length B, k)"
    using assms by (simp add: tss_bounds_def)
  have ord: "tss_order cmp A B k (0, length A, 0, length B, k)"
    by (auto simp: tss_order_def)
  from tss_loop_selects[OF assms(1,2,3) init ord]
  obtain a b where res: "tss_loop cmp A B (0, length A, 0, length B, k) = Some (a, b)"
    and ab: "0 \<le> a" "a \<le> int (length A)" "0 \<le> b" "b \<le> int (length B)" "a + b = k"
    and c1: "\<And>i j. j < nat a \<Longrightarrow> nat b \<le> i \<Longrightarrow> i < length B \<Longrightarrow> \<not> cmp (B ! i) (A ! j)"
    and c2: "\<And>i j. i < nat b \<Longrightarrow> nat a \<le> j \<Longrightarrow> j < length A \<Longrightarrow> cmp (B ! i) (A ! j)"
    by blast
  have s1: "\<not> cmp y x" if "x \<in> set (take (nat a) A)" "y \<in> set (drop (nat b) B)" for x y
  proof -
    from that(1) obtain j where j: "j < nat a" "j < length A" "x = A ! j"
      by (auto simp: in_set_conv_nth)
    from that(2) obtain i where i: "i < length B - nat b" "y = B ! (nat b + i)"
      by (auto simp: in_set_conv_nth)
    show ?thesis using c1[of j "nat b + i"] i j by simp
  qed
  have s2: "cmp y x" if "y \<in> set (take (nat b) B)" "x \<in> set (drop (nat a) A)" for x y
  proof -
    from that(1) obtain i where i: "i < nat b" "i < length B" "y = B ! i"
      by (auto simp: in_set_conv_nth)
    from that(2) obtain j where j: "j < length A - nat a" "x = A ! (nat a + j)"
      by (auto simp: in_set_conv_nth)
    show ?thesis using c2[of i "nat a + j"] i j by simp
  qed
  show ?thesis
    using res ab s1 s2 by (simp add: twoSequenceSelection_def selects_def)
qed

theorem twoSequenceSelection_correct_witness:
  "strict_weak_order ((<) :: nat \<Rightarrow> nat \<Rightarrow> bool) \<and> is_sorted (<) [1, 3, 5, 7 :: nat] \<and>
   is_sorted (<) [2, 3, 6, 8 :: nat] \<and>
   twoSequenceSelection [1, 3, 5, 7 :: nat] 0 4 [2, 3, 6, 8] 0 4 4 (<) = Some (2, 2) \<and>
   selects (<) [1, 3, 5, 7 :: nat] [2, 3, 6, 8] 4 (2, 2)"
proof -
  have h1: "strict_weak_order ((<) :: nat \<Rightarrow> nat \<Rightarrow> bool)"
    by (auto simp: strict_weak_order_def)
  have h2: "is_sorted (<) [1, 3, 5, 7 :: nat]" "is_sorted (<) [2, 3, 6, 8 :: nat]"
    by (simp_all add: is_sorted_def)
  have h3: "(0::int) \<le> 4" "(4::int) \<le> int (length [1, 3, 5, 7 :: nat]) + int (length [2, 3, 6, 8 :: nat])"
    by simp_all
  have len: "length [1, 3, 5, 7 :: nat] = 4" "length [2, 3, 6, 8 :: nat] = 4"
    by simp_all
  have e: "twoSequenceSelection [1, 3, 5, 7 :: nat] 0 4 [2, 3, 6, 8] 0 4 4 (<) = Some (2, 2)"
    unfolding twoSequenceSelection_def
    apply (subst tss_loop.simps)
    apply (simp add: tss_body_def Let_def)
    apply (simp add: lower_bound_def lower_bound_loop.simps Let_def)
    done
  from twoSequenceSelection_correct [OF h1 h2 h3, unfolded len]
  obtain ab where ab: "twoSequenceSelection [1, 3, 5, 7 :: nat] 0 4 [2, 3, 6, 8] 0 4 4 (<) = Some ab"
     "selects (<) [1, 3, 5, 7 :: nat] [2, 3, 6, 8] 4 ab"
    by blast
  then have "selects (<) [1, 3, 5, 7 :: nat] [2, 3, 6, 8] 4 (2, 2)" using e by simp
  then show ?thesis using h1 h2 e by simp
qed


section \<open>Comparators\<close>

lemma compare_loop_less:
  "(case compare_loop (xs @ [0]) (ys @ [0]) of (l, r) \<Rightarrow> l < r) \<longleftrightarrow>
     takeWhile (\<lambda>c. c \<noteq> 0) xs < takeWhile (\<lambda>c. c \<noteq> 0) ys"
proof (induction xs arbitrary: ys)
  case Nil
  show ?case by (cases ys) (auto simp: word_gt_0)
next
  case (Cons x xs)
  show ?case
  proof (cases ys)
    case Nil
    then show ?thesis by simp
  next
    case (Cons y ys')
    show ?thesis
    proof (cases "x = y \<and> x \<noteq> 0")
      case True
      then show ?thesis using Cons.IH[of ys'] Cons by simp
    next
      case False
      then show ?thesis using Cons by (auto simp: word_gt_0)
    qed
  qed
qed

lemma compare_loop_zero:
  "(case compare_loop (xs @ [0]) (ys @ [0]) of (l, r) \<Rightarrow> l = 0 \<and> r = 0) \<longleftrightarrow>
     takeWhile (\<lambda>c. c \<noteq> 0) xs = takeWhile (\<lambda>c. c \<noteq> 0) ys"
proof (induction xs arbitrary: ys)
  case Nil
  show ?case by (cases ys) auto
next
  case (Cons x xs)
  show ?case
  proof (cases ys)
    case Nil
    then show ?thesis by simp
  next
    case (Cons y ys')
    show ?thesis
    proof (cases "x = y \<and> x \<noteq> 0")
      case True
      then show ?thesis using Cons.IH[of ys'] Cons by simp
    next
      case False
      then show ?thesis using Cons by auto
    qed
  qed
qed

lemma StringComparator_visible: "StringComparator a b \<longleftrightarrow> visible a < visible b"
  using compare_loop_less[of "chars a" "chars b"]
  by (simp add: StringComparator_def c_str_def visible_def split: prod.splits)

lemma IndexStringComparator_visible:
  "IndexStringComparator a b \<longleftrightarrow>
     visible a < visible b \<or> (visible a = visible b \<and> index a < index b)"
proof -
  obtain l r where lr: "compare_loop (chars a @ [0]) (chars b @ [0]) = (l, r)"
    by (cases "compare_loop (chars a @ [0]) (chars b @ [0])") auto
  have 1: "l < r \<longleftrightarrow> visible a < visible b"
    using compare_loop_less[of "chars a" "chars b"] lr by (simp add: visible_def)
  have 2: "l = 0 \<and> r = 0 \<longleftrightarrow> visible a = visible b"
    using compare_loop_zero[of "chars a" "chars b"] lr by (simp add: visible_def)
  show ?thesis
    using 1 2 by (auto simp: IndexStringComparator_def c_str_def lr)
qed

lemma swo_StringComparator: "strict_weak_order StringComparator"
  unfolding strict_weak_order_def StringComparator_visible by auto

lemma swo_IndexStringComparator: "strict_weak_order IndexStringComparator"
  unfolding strict_weak_order_def IndexStringComparator_visible by auto

lemma swo_comparator: "strict_weak_order (comparator isIndexed)"
  by (simp add: comparator_def swo_StringComparator swo_IndexStringComparator)

lemma visible_zero_free: "0 \<notin> set (chars s) \<Longrightarrow> visible s = chars s"
  by (simp add: visible_def takeWhile_eq_all_conv) metis

section \<open>DuplicateBreak\<close>

lemma runs_Nil_iff [simp]: "runs xs = [] \<longleftrightarrow> xs = []"
  by (cases xs) (auto split: list.splits)

lemma runs_nonempty: "r \<in> set (runs xs) \<Longrightarrow> r \<noteq> []"
  by (induction xs arbitrary: r) (auto split: list.splits if_splits)

lemma concat_runs [simp]: "concat (runs xs) = xs"
  by (induction xs) (auto split: list.splits)

lemma hd_hd_runs: "xs \<noteq> [] \<Longrightarrow> hd (hd (runs xs)) = hd xs"
  by (cases xs) (auto split: list.splits)

lemma runs_uniform: "r \<in> set (runs xs) \<Longrightarrow> x \<in> set r \<Longrightarrow> chars x = chars (hd r)"
proof (induction xs arbitrary: r x)
  case Nil
  then show ?case by simp
next
  case (Cons y ys)
  show ?case
  proof (cases "runs ys")
    case Nil
    then show ?thesis using Cons.prems by simp
  next
    case (Cons r' rs)
    show ?thesis
    proof (cases "chars y = chars (hd r')")
      case True
      then have rs: "runs (y # ys) = (y # r') # rs" using Cons by simp
      show ?thesis
      proof (cases "r = y # r'")
        case True
        then show ?thesis
          using Cons.prems(2) Cons.IH[of r' x] Cons \<open>chars y = chars (hd r')\<close> by auto
      next
        case False
        then have "r \<in> set (runs ys)" using Cons.prems(1) rs Cons by auto
        then show ?thesis using Cons.IH Cons.prems(2) by blast
      qed
    next
      case False
      then have rs: "runs (y # ys) = [y] # r' # rs" using Cons by simp
      show ?thesis
      proof (cases "r = [y]")
        case True
        then show ?thesis using Cons.prems(2) by simp
      next
        case False
        then have "r \<in> set (runs ys)" using Cons.prems(1) rs Cons by auto
        then show ?thesis using Cons.IH Cons.prems(2) by blast
      qed
    qed
  qed
qed

lemma last_last_runs: "xs \<noteq> [] \<Longrightarrow> last (last (runs xs)) = last xs"
proof -
  assume ne: "xs \<noteq> []"
  then have r: "runs xs \<noteq> []" by simp
  then have l: "last (runs xs) \<noteq> []" using runs_nonempty[of "last (runs xs)" xs] by simp
  have "last xs = last (concat (runs xs))" by simp
  also have "\<dots> = last (concat (butlast (runs xs)) @ last (runs xs))"
    using r by (metis append_butlast_last_id concat.simps(1) concat.simps(2) concat_append append_Nil2)
  also have "\<dots> = last (last (runs xs))" using l by simp
  finally show ?thesis by simp
qed

lemma runs_snoc:
  "runs (xs @ [x]) =
     (if xs = [] then [[x]]
      else if chars x = chars (last xs) then butlast (runs xs) @ [last (runs xs) @ [x]]
      else runs xs @ [[x]])"
proof (induction xs)
  case Nil
  then show ?case by simp
next
  case (Cons y ys)
  show ?case
  proof (cases "ys = []")
    case True
    then show ?thesis by auto
  next
    case False
    then obtain r rs where rr: "runs ys = r # rs" by (cases "runs ys") auto
    have rne: "r \<noteq> []" using runs_nonempty[of r ys] rr by simp
    have hdr: "hd r = hd ys" using hd_hd_runs[OF False] rr by simp
    have lastx: "last (y # ys) = last ys" using False by simp
    show ?thesis
    proof (cases "chars x = chars (last ys)")
      case True
      then have snoc: "runs (ys @ [x]) = butlast (runs ys) @ [last (runs ys) @ [x]]"
        using Cons.IH False by simp
      show ?thesis
      proof (cases rs)
        case Nil
        then have s1: "runs (ys @ [x]) = [r @ [x]]" using snoc rr by simp
        have "hd (r @ [x]) = hd r" using rne by simp
        then show ?thesis using s1 rr Nil True lastx False by (auto simp: Let_def)
      next
        case (Cons r2 rs2)
        then have s1: "runs (ys @ [x]) = r # butlast rs @ [last rs @ [x]]" using snoc rr by simp
        show ?thesis using s1 rr Cons True lastx False by auto
      qed
    next
      case F: False
      then have snoc: "runs (ys @ [x]) = runs ys @ [[x]]" using Cons.IH False by simp
      then have s1: "runs (ys @ [x]) = r # (rs @ [[x]])" using rr by simp
      show ?thesis using s1 rr F lastx False by auto
    qed
  qed
qed

lemma run_ranges_nonempty: "rs \<noteq> [] \<Longrightarrow> run_ranges off rs \<noteq> []"
  by (induction off rs rule: run_ranges.induct) auto

lemma run_ranges_snoc:
  "run_ranges off (pre @ [r]) =
     butlast (run_ranges off (pre @ [r0])) @
     [(off + length (concat pre), off + length (concat pre) + length r)]"
proof (induction pre arbitrary: off)
  case Nil
  then show ?case by simp
next
  case (Cons p ps)
  obtain q qs where q: "ps @ [r] = q # qs" by (cases ps) auto
  obtain q0 qs0 where q0: "ps @ [r0] = q0 # qs0" by (cases ps) auto
  have ne: "run_ranges (off + length p) (ps @ [r0]) \<noteq> []"
    by (rule run_ranges_nonempty) simp
  have e1: "run_ranges off ((p # ps) @ [r]) =
        (if length p \<noteq> 1 then [(off, off + length p)] else []) @ run_ranges (off + length p) (ps @ [r])"
    using q by simp
  have e2: "butlast (run_ranges off ((p # ps) @ [r0])) =
        (if length p \<noteq> 1 then [(off, off + length p)] else []) @
        butlast (run_ranges (off + length p) (ps @ [r0]))"
    using q0 ne by (simp add: butlast_append)
  show ?case unfolding e1 e2 using Cons.IH[of "off + length p"] by (simp add: add.assoc)
qed

lemma run_ranges_snoc2:
  "run_ranges off (pre @ [r1, r2]) =
     butlast (run_ranges off (pre @ [r1])) @
     (if length r1 \<noteq> 1
      then [(off + length (concat pre), off + length (concat pre) + length r1)] else []) @
     [(off + length (concat pre) + length r1, off + length (concat pre) + length r1 + length r2)]"
proof (induction pre arbitrary: off)
  case Nil
  then show ?case by simp
next
  case (Cons p ps)
  obtain q qs where q: "ps @ [r1, r2] = q # qs" by (cases ps) auto
  obtain q0 qs0 where q0: "ps @ [r1] = q0 # qs0" by (cases ps) auto
  have ne: "run_ranges (off + length p) (ps @ [r1]) \<noteq> []"
    by (rule run_ranges_nonempty) simp
  have e1: "run_ranges off ((p # ps) @ [r1, r2]) =
        (if length p \<noteq> 1 then [(off, off + length p)] else []) @ run_ranges (off + length p) (ps @ [r1, r2])"
    using q by simp
  have e2: "butlast (run_ranges off ((p # ps) @ [r1])) =
        (if length p \<noteq> 1 then [(off, off + length p)] else []) @
        butlast (run_ranges (off + length p) (ps @ [r1]))"
    using q0 ne by (simp add: butlast_append)
  show ?case unfolding e1 e2 using Cons.IH[of "off + length p"] by (simp add: add.assoc)
qed

lemma sort_ranges_runs:
  "foldl sort_range (pre @ concat rs) (run_ranges (length pre) rs) =
     pre @ concat (map (sort_key index) rs)"
proof (induction "length pre" rs arbitrary: pre rule: run_ranges.induct)
  case 1
  then show ?case by simp
next
  case (2 r)
  then show ?case by (simp add: sort_range_def)
next
  case (3 r r' rs)
  have step: "foldl sort_range ((pre @ sort_key index r) @ concat (r' # rs))
                (run_ranges (length (pre @ sort_key index r)) (r' # rs)) =
              (pre @ sort_key index r) @ concat (map (sort_key index) (r' # rs))"
    by (rule "3.hyps"(1)) simp
  show ?case
  proof (cases "length r \<noteq> 1")
    case True
    have "sort_range (pre @ concat (r # r' # rs)) (length pre, length pre + length r) =
          (pre @ sort_key index r) @ concat (r' # rs)"
      by (simp add: sort_range_def)
    then show ?thesis using True step by simp
  next
    case False
    then obtain x where "r = [x]" by (cases r) auto
    then show ?thesis using step by simp
  qed
qed

lemma lcp_eq_iff: "length ys = lcp xs ys \<and> length xs = lcp xs ys \<longleftrightarrow> xs = ys"
  by (induction xs ys rule: lcp.induct) auto

lemma dup_fold:
  assumes lc: "\<forall>j. 0 < j \<and> j < length ss \<longrightarrow> lcps ! j = lcp (chars (ss ! (j - 1))) (chars (ss ! j))"
    and i: "1 \<le> i" "i \<le> length ss"
  shows "\<exists>x. foldl (dup_step ss lcps) ([(0, 0)], getLength (ss ! 0)) [1..<i] =
            (butlast (run_ranges 0 (runs (take i ss))) @
               [(length (concat (butlast (runs (take i ss)))), x)],
             getLength (ss ! (i - 1)))"
  using i
proof (induction i)
  case 0
  then show ?case by simp
next
  case (Suc i)
  show ?case
  proof (cases "i = 0")
    case True
    have "take (Suc 0) ss = [ss ! 0]" using Suc.prems by (cases ss) auto
    then show ?thesis using True by simp
  next
    case False
    then have i1: "1 \<le> i" "i \<le> length ss" "i < length ss" using Suc.prems by simp_all
    from Suc.IH[OF i1(1,2)] obtain x where
      IH: "foldl (dup_step ss lcps) ([(0, 0)], getLength (ss ! 0)) [1..<i] =
            (butlast (run_ranges 0 (runs (take i ss))) @
               [(length (concat (butlast (runs (take i ss)))), x)],
             getLength (ss ! (i - 1)))" by blast
    let ?xs = "take i ss"
    let ?R = "runs ?xs"
    let ?closed = "butlast (run_ranges 0 ?R)"
    let ?start = "length (concat (butlast ?R))"
    have xs_ne: "?xs \<noteq> []" using i1 by (cases ss) auto
    have R_ne: "?R \<noteq> []" using xs_ne by simp
    have R_split: "?R = butlast ?R @ [last ?R]" using R_ne by simp
    have last_xs: "last ?xs = ss ! (i - 1)"
      using i1 xs_ne by (simp add: last_conv_nth)
    have tk: "take (Suc i) ss = ?xs @ [ss ! i]" using i1 by (simp add: take_Suc_conv_app_nth)
    have len_R: "?start + length (last ?R) = i"
    proof -
      have "length (concat ?R) = i" using i1 by simp
      moreover have "concat ?R = concat (butlast ?R) @ last ?R"
        by (subst R_split) simp
      ultimately show ?thesis by (metis length_append)
    qed
    have lcpi: "lcps ! i = lcp (chars (ss ! (i - 1))) (chars (ss ! i))" using lc i1 by simp
    have upt: "[1..<Suc i] = [1..<i] @ [i]" using i1 by simp
    have fold_eq: "foldl (dup_step ss lcps) ([(0, 0)], getLength (ss ! 0)) [1..<Suc i] =
        dup_step ss lcps (?closed @ [(?start, x)], getLength (ss ! (i - 1))) i"
      unfolding upt using IH by simp
    show ?thesis
    proof (cases "chars (ss ! i) = chars (ss ! (i - 1))")
      case True
      then have nob: "\<not> (getLength (ss ! i) \<noteq> lcps ! i \<or> getLength (ss ! (i - 1)) \<noteq> lcps ! i)"
        using lcp_eq_iff[of "chars (ss ! i)" "chars (ss ! (i - 1))"] lcpi
        by (simp add: getLength_def)
      have R': "runs (take (Suc i) ss) = butlast ?R @ [last ?R @ [ss ! i]]"
        unfolding tk using True xs_ne last_xs by (simp add: runs_snoc)
      have c': "butlast (run_ranges 0 (runs (take (Suc i) ss))) = ?closed"
        unfolding R'
        using run_ranges_snoc[of 0 "butlast ?R" "last ?R @ [ss ! i]" "last ?R @ [ss ! i]"]
              run_ranges_snoc[of 0 "butlast ?R" "last ?R" "last ?R @ [ss ! i]"] R_split
        by (metis butlast_snoc)
      have "dup_step ss lcps (?closed @ [(?start, x)], getLength (ss ! (i - 1))) i =
            (?closed @ [(?start, x)], getLength (ss ! i))"
        using nob by (simp add: dup_step_def Let_def)
      then show ?thesis unfolding fold_eq using c' R' by simp
    next
      case False
      then have bnd: "getLength (ss ! i) \<noteq> lcps ! i \<or> getLength (ss ! (i - 1)) \<noteq> lcps ! i"
        using lcp_eq_iff[of "chars (ss ! i)" "chars (ss ! (i - 1))"] lcpi
        by (auto simp: getLength_def)
      have R': "runs (take (Suc i) ss) = butlast ?R @ [last ?R, [ss ! i]]"
      proof -
        have "runs (take (Suc i) ss) = ?R @ [[ss ! i]]"
          unfolding tk using False xs_ne last_xs by (simp add: runs_snoc)
        also have "\<dots> = butlast ?R @ [last ?R, [ss ! i]]" by (subst R_split) simp
        finally show ?thesis .
      qed
      have rr: "run_ranges 0 (runs (take (Suc i) ss)) =
          ?closed @ (if length (last ?R) \<noteq> 1 then [(?start, ?start + length (last ?R))] else []) @
          [(?start + length (last ?R), ?start + length (last ?R) + 1)]"
        unfolding R' using run_ranges_snoc2[of 0 "butlast ?R" "last ?R" "[ss ! i]"] R_split by simp
      have c': "butlast (run_ranges 0 (runs (take (Suc i) ss))) =
          ?closed @ (if length (last ?R) \<noteq> 1 then [(?start, i)] else [])"
        unfolding rr using len_R by (simp add: butlast_append)
      have st': "length (concat (butlast (runs (take (Suc i) ss)))) = i"
      proof -
        have "butlast (runs (take (Suc i) ss)) = ?R" unfolding R' using R_split
          by (metis (no_types, lifting) append.assoc append_Cons append_Nil butlast_snoc)
        then show ?thesis using i1 by simp
      qed
      have cond: "?start + 1 \<noteq> i \<longleftrightarrow> length (last ?R) \<noteq> 1" using len_R by auto
      have "dup_step ss lcps (?closed @ [(?start, x)], getLength (ss ! (i - 1))) i =
            (if ?start + 1 \<noteq> i then ?closed @ [(?start, i)] @ [(i, i)] else ?closed @ [(i, x)],
             getLength (ss ! i))"
        using bnd by (simp add: dup_step_def Let_def)
      then have "\<exists>y. dup_step ss lcps (?closed @ [(?start, x)], getLength (ss ! (i - 1))) i =
            ((?closed @ (if length (last ?R) \<noteq> 1 then [(?start, i)] else [])) @ [(i, y)],
             getLength (ss ! i))"
        using cond by (cases "length (last ?R) \<noteq> 1") auto
      then show ?thesis unfolding fold_eq c' st' by simp
    qed
  qed
qed

lemma getDuplicateRanges_runs:
  assumes lc: "\<forall>j. 0 < j \<and> j < length ss \<longrightarrow> lcps ! j = lcp (chars (ss ! (j - 1))) (chars (ss ! j))"
  shows "getDuplicateRanges ss lcps = run_ranges 0 (runs ss)"
proof (cases "ss = []")
  case True
  then show ?thesis by (simp add: getDuplicateRanges_def)
next
  case False
  then have n: "1 \<le> length ss" by (cases ss) auto
  from dup_fold[OF lc n order_refl] obtain x where
    f: "foldl (dup_step ss lcps) ([(0, 0)], getLength (ss ! 0)) [1..<length ss] =
          (butlast (run_ranges 0 (runs ss)) @ [(length (concat (butlast (runs ss))), x)],
           getLength (ss ! (length ss - 1)))"
    by auto
  have R_ne: "runs ss \<noteq> []" using False by simp
  then have R_split: "runs ss = butlast (runs ss) @ [last (runs ss)]" by simp
  have len: "length (concat (butlast (runs ss))) + length (last (runs ss)) = length ss"
  proof -
    have "concat (runs ss) = concat (butlast (runs ss)) @ last (runs ss)"
      by (subst R_split) simp
    then show ?thesis by (metis concat_runs length_append)
  qed
  have "run_ranges 0 (runs ss) =
        butlast (run_ranges 0 (runs ss)) @ [(length (concat (butlast (runs ss))), length ss)]"
    using run_ranges_snoc[of 0 "butlast (runs ss)" "last (runs ss)" "last (runs ss)"] R_split len
    by simp
  then show ?thesis using False f by (simp add: getDuplicateRanges_def)
qed

lemma sortRanges_getDuplicateRanges:
  assumes lc: "\<forall>j. 0 < j \<and> j < length ss \<longrightarrow> lcps ! j = lcp (chars (ss ! (j - 1))) (chars (ss ! j))"
  shows "sortRanges ss (getDuplicateRanges ss lcps) = concat (map (sort_key index) (runs ss))"
  using sort_ranges_runs[of "[]" "runs ss"]
  by (simp add: sortRanges_def getDuplicateRanges_runs[OF lc])

lemma not_ISC_iff:
  assumes "0 \<notin> set (chars a)" "0 \<notin> set (chars b)"
  shows "\<not> IndexStringComparator b a \<longleftrightarrow>
           chars a < chars b \<or> (chars a = chars b \<and> index a \<le> index b)"
proof -
  have v: "visible a = chars a" "visible b = chars b"
    using assms by (simp_all add: visible_zero_free)
  show ?thesis
  proof (cases "chars a = chars b")
    case True
    then show ?thesis unfolding IndexStringComparator_visible v by (simp add: not_less)
  next
    case False
    then have "chars a < chars b \<or> chars b < chars a" by (rule linorder_neqE) blast+
    then show ?thesis unfolding IndexStringComparator_visible v using False
      by (metis order_less_asym)
  qed
qed

lemma not_SC_iff:
  assumes "0 \<notin> set (chars a)" "0 \<notin> set (chars b)"
  shows "\<not> StringComparator b a \<longleftrightarrow> chars a \<le> chars b"
proof -
  have v: "visible a = chars a" "visible b = chars b"
    using assms by (simp_all add: visible_zero_free)
  show ?thesis unfolding StringComparator_visible v by (simp add: not_less)
qed

lemma set_concat_sorted_runs: "set (concat (map (sort_key index) rs)) = set (concat rs)"
  by (induction rs) auto

lemma sorted_run:
  assumes "\<forall>a \<in> set r. chars a = c"
  shows "sorted_wrt (\<lambda>a b. chars a < chars b \<or> (chars a = chars b \<and> index a \<le> index b))
           (sort_key index r)"
proof -
  have "sorted (map index (sort_key index r))" by (rule sorted_sort_key)
  then have s: "sorted_wrt (\<lambda>a b. index a \<le> index b) (sort_key index r)"
    by (simp add: sorted_map)
  show ?thesis
  proof (rule sorted_wrt_mono_rel[OF _ s])
    fix a b assume "a \<in> set (sort_key index r)" "b \<in> set (sort_key index r)" "index a \<le> index b"
    moreover have "set (sort_key index r) = set r" by (simp only: set_sort)
    ultimately show "chars a < chars b \<or> (chars a = chars b \<and> index a \<le> index b)"
      using assms by simp
  qed
qed

lemma map_const_replicate: "\<forall>a \<in> set l. f a = c \<Longrightarrow> map f l = replicate (length l) c"
  by (induction l) simp_all

lemma runs_sorted_aux:
  assumes "sorted (map chars xs)"
  shows "sorted_wrt (\<lambda>a b. chars a < chars b \<or> (chars a = chars b \<and> index a \<le> index b))
           (concat (map (sort_key index) (runs xs))) \<and>
         (\<forall>r rs. runs xs = r # rs \<longrightarrow> (\<forall>b \<in> set (concat rs). chars (hd r) < chars b))"
  using assms
proof (induction xs)
  case Nil
  then show ?case by simp
next
  case (Cons x xs)
  let ?P = "\<lambda>a b. chars a < chars b \<or> (chars a = chars b \<and> index a \<le> index b)"
  from Cons.prems have sx: "sorted (map chars xs)" and le: "\<forall>y \<in> set xs. chars x \<le> chars y"
    by auto
  note IH = Cons.IH[OF sx]
  show ?case
  proof (cases "runs xs")
    case Nil
    then show ?thesis by simp
  next
    case (Cons r rs)
    then have xs_ne: "xs \<noteq> []" by auto
    have r_in: "r \<in> set (runs xs)" using Cons by simp
    have r_ne: "r \<noteq> []" using runs_nonempty[OF r_in] .
    have uni: "\<forall>a \<in> set r. chars a = chars (hd r)" using runs_uniform[OF r_in] by blast
    have hdr: "hd r = hd xs" using hd_hd_runs[OF xs_ne] Cons by simp
    have sep: "\<forall>b \<in> set (concat rs). chars (hd r) < chars b" using IH Cons by blast
    have srt_rest: "sorted_wrt ?P (concat (map (sort_key index) rs))"
      using IH Cons by (simp add: sorted_wrt_append)
    have xs_eq: "xs = r @ concat rs" using concat_runs[of xs] Cons by simp
    show ?thesis
    proof (cases "chars x = chars (hd r)")
      case True
      then have R: "runs (x # xs) = (x # r) # rs" using Cons by simp
      have uni': "\<forall>a \<in> set (x # r). chars a = chars x" using uni True by simp
      have s1: "sorted_wrt ?P (sort_key index (x # r))" by (rule sorted_run[OF uni'])
      have set1: "set (sort_key index (x # r)) = set (x # r)" by (simp only: set_sort)
      have cross: "\<forall>a \<in> set (sort_key index (x # r)). \<forall>b \<in> set (concat (map (sort_key index) rs)). ?P a b"
      proof (intro ballI)
        fix a b assume "a \<in> set (sort_key index (x # r))" "b \<in> set (concat (map (sort_key index) rs))"
        then have "chars a = chars x" "chars (hd r) < chars b"
          using uni' sep set1 by (auto simp only: set_concat_sorted_runs)
        then show "?P a b" using True by simp
      qed
      have "sorted_wrt ?P (sort_key index (x # r) @ concat (map (sort_key index) rs))"
        using s1 srt_rest cross by (simp only: sorted_wrt_append simp_thms)
      then show ?thesis unfolding R using sep True by simp
    next
      case False
      then have R: "runs (x # xs) = [x] # r # rs" using Cons by simp
      have "hd xs \<in> set xs" using xs_ne by simp
      then have "chars x \<le> chars (hd xs)" using le by blast
      then have lt: "chars x < chars (hd xs)" using False hdr by simp
      have hd_le: "\<forall>y \<in> set xs. chars (hd xs) \<le> chars y"
        using sx xs_ne by (cases xs) auto
      have all_lt: "\<forall>y \<in> set xs. chars x < chars y" using lt hd_le by fastforce
      have set_xs: "set (concat (map (sort_key index) (r # rs))) = set xs"
        using set_concat_sorted_runs[of "r # rs"] xs_eq by simp
      have "sorted_wrt ?P (x # concat (map (sort_key index) (r # rs)))"
        using IH Cons all_lt set_xs by simp
      moreover have "\<forall>b \<in> set (concat (r # rs)). chars (hd [x]) < chars b"
        using all_lt xs_eq by simp
      ultimately show ?thesis unfolding R by auto
    qed
  qed
qed

lemma map_chars_sorted_runs: "map chars (concat (map (sort_key index) (runs xs))) = map chars xs"
proof -
  have run: "map chars (sort_key index r) = map chars r" if "r \<in> set (runs xs)" for r
  proof -
    have u: "\<forall>a \<in> set r. chars a = chars (hd r)" using runs_uniform[OF that] by blast
    have u': "\<forall>a \<in> set (sort_key index r). chars a = chars (hd r)"
      using u by (simp only: set_sort)
    have "map chars (sort_key index r) = replicate (length (sort_key index r)) (chars (hd r))"
      by (rule map_const_replicate[OF u'])
    also have "\<dots> = replicate (length r) (chars (hd r))" by (simp only: length_sort)
    also have "\<dots> = map chars r" by (rule map_const_replicate[OF u, symmetric])
    finally show ?thesis .
  qed
  have "map chars (concat (map (sort_key index) (runs xs))) = concat (map (map chars) (map (sort_key index) (runs xs)))"
    by (simp add: map_concat)
  also have "\<dots> = concat (map (map chars) (runs xs))"
    using run by (simp cong: map_cong)
  also have "\<dots> = map chars (concat (runs xs))" by (simp only: map_concat)
  finally show ?thesis by (simp only: concat_runs)
qed

lemma mset_sorted_runs: "mset (concat (map (sort_key index) (runs xs))) = mset xs"
proof -
  have "mset (concat (map (sort_key index) rs)) = mset (concat rs)" for rs :: "Str list list"
    by (induction rs) auto
  then show ?thesis by (metis concat_runs)
qed

text \<open>
  C9. For a buffer of zero-free strings that is sorted by the byte comparator and comes
  with the LCP array of its adjacent strings, \<open>sortRanges\<close> on the ranges of
  \<open>getDuplicateRanges\<close> yields the maximal runs of equal strings, each sorted by index
  and all in their old places; the result is sorted by the indexed comparator, every
  position keeps its characters, and the strings are the same multiset.
\<close>

theorem duplicate_break:
  assumes zero_free: "\<forall>s \<in> set ss. 0 \<notin> set (chars s)"
    and radix_sorted: "is_sorted StringComparator ss"
    and lcps: "\<forall>i. 0 < i \<and> i < length ss \<longrightarrow> lcps ! i = lcp (chars (ss ! (i - 1))) (chars (ss ! i))"
  shows "sortRanges ss (getDuplicateRanges ss lcps) = concat (map (sort_key index) (runs ss)) \<and>
         is_sorted IndexStringComparator (sortRanges ss (getDuplicateRanges ss lcps)) \<and>
         map chars (sortRanges ss (getDuplicateRanges ss lcps)) = map chars ss \<and>
         mset (sortRanges ss (getDuplicateRanges ss lcps)) = mset ss"
proof -
  let ?res = "concat (map (sort_key index) (runs ss))"
  have eq: "sortRanges ss (getDuplicateRanges ss lcps) = ?res"
    by (rule sortRanges_getDuplicateRanges[OF lcps])
  have "sorted_wrt (\<lambda>a b. \<not> StringComparator b a) ss" using radix_sorted by (simp add: is_sorted_def)
  then have "sorted_wrt (\<lambda>a b. chars a \<le> chars b) ss"
  proof (rule sorted_wrt_mono_rel[rotated])
    fix a b assume "a \<in> set ss" "b \<in> set ss" "\<not> StringComparator b a"
    then show "chars a \<le> chars b" using zero_free not_SC_iff[of a b] by blast
  qed
  then have sc: "sorted (map chars ss)" by (simp add: sorted_map)
  have zf: "\<forall>s \<in> set ?res. 0 \<notin> set (chars s)"
    using zero_free set_concat_sorted_runs[of "runs ss"] by simp
  have "sorted_wrt (\<lambda>a b. chars a < chars b \<or> (chars a = chars b \<and> index a \<le> index b)) ?res"
    using runs_sorted_aux[OF sc] by blast
  then have "sorted_wrt (\<lambda>a b. \<not> IndexStringComparator b a) ?res"
  proof (rule sorted_wrt_mono_rel[rotated])
    fix a b assume "a \<in> set ?res" "b \<in> set ?res"
      "chars a < chars b \<or> (chars a = chars b \<and> index a \<le> index b)"
    then show "\<not> IndexStringComparator b a" using zf not_ISC_iff[of a b] by blast
  qed
  then show ?thesis
    using eq map_chars_sorted_runs[of ss] mset_sorted_runs[of ss] by (simp add: is_sorted_def)
qed

theorem duplicate_break_witness:
  "is_sorted StringComparator
     [\<lparr>chars = [97], index = 5\<rparr>, \<lparr>chars = [97], index = 3\<rparr>, \<lparr>chars = [98], index = 1\<rparr>] \<and>
   sortRanges [\<lparr>chars = [97], index = 5\<rparr>, \<lparr>chars = [97], index = 3\<rparr>, \<lparr>chars = [98], index = 1\<rparr>]
     (getDuplicateRanges
        [\<lparr>chars = [97], index = 5\<rparr>, \<lparr>chars = [97], index = 3\<rparr>, \<lparr>chars = [98], index = 1\<rparr>]
        [0, 1, 0]) =
     [\<lparr>chars = [97], index = 3\<rparr>, \<lparr>chars = [97], index = 5\<rparr>, \<lparr>chars = [98], index = 1\<rparr>] \<and>
   is_sorted IndexStringComparator
     [\<lparr>chars = [97], index = 3\<rparr>, \<lparr>chars = [97], index = 5\<rparr>, \<lparr>chars = [98], index = 1\<rparr>]"
proof -
  let ?ss = "[\<lparr>chars = [97], index = 5\<rparr>, \<lparr>chars = [97], index = 3\<rparr>, \<lparr>chars = [98], index = 1\<rparr>]"
  have h1: "\<forall>s \<in> set ?ss. 0 \<notin> set (chars s)" by simp
  have h2: "is_sorted StringComparator ?ss"
    by (simp add: is_sorted_def StringComparator_def c_str_def)
  have h3: "\<forall>i. 0 < i \<and> i < length ?ss \<longrightarrow>
              [0, 1, 0] ! i = lcp (chars (?ss ! (i - 1))) (chars (?ss ! i))"
  proof (intro allI impI)
    fix i :: nat assume "0 < i \<and> i < length ?ss"
    then have "i = 1 \<or> i = 2" by auto
    then show "[0, 1, 0] ! i = lcp (chars (?ss ! (i - 1))) (chars (?ss ! i))" by auto
  qed
  have runs: "concat (map (sort_key index) (runs ?ss)) =
     [\<lparr>chars = [97], index = 3\<rparr>, \<lparr>chars = [97], index = 5\<rparr>, \<lparr>chars = [98], index = 1\<rparr>]"
    by simp
  note db = duplicate_break [OF h1 h2 h3]
  from db have eq: "sortRanges ?ss (getDuplicateRanges ?ss [0, 1, 0]) =
      [\<lparr>chars = [97], index = 3\<rparr>, \<lparr>chars = [97], index = 5\<rparr>, \<lparr>chars = [98], index = 1\<rparr>]"
    by (simp only: runs)
  from db have "is_sorted IndexStringComparator (sortRanges ?ss (getDuplicateRanges ?ss [0, 1, 0]))"
    by blast
  then have srt: "is_sorted IndexStringComparator
      [\<lparr>chars = [97], index = 3\<rparr>, \<lparr>chars = [97], index = 5\<rparr>, \<lparr>chars = [98], index = 1\<rparr>]"
    by (simp only: eq)
  show ?thesis
    using h2 eq srt by blast
qed

section \<open>Containers built from packed strings\<close>












section \<open>The merge step\<close>










section \<open>The partition step and the partner\<close>




lemma partner_lt: "0 < nprocs \<Longrightarrow> (myrank + nprocs div 2) mod nprocs < (nprocs::nat)"
  by simp


section \<open>One level of sortRec\<close>






lemma length_level_step [simp]:
  "length (level_step isIndexed cmp is_robust nprocs procs p states) = nprocs"
  by (simp add: level_step_def Let_def)

















section \<open>The recursion of sortRec\<close>



















section \<open>The local sort\<close>








section \<open>The driver\<close>






























end
